theory Spec2Isabelle
  imports Main "HOL-Library.AList" "HOL-Library.Multiset"
begin

section \<open>Data model\<close>

text \<open>
  A \<^verbatim>\<open>Date\<close> is represented by its time value (milliseconds since the epoch), the
  number that \<^verbatim>\<open>dateA > dateB\<close> compares.  The publication date is mandatory and
  validated by the document source, so an invalid date (time value NaN) is not an input.
  \<^verbatim>\<open>new Date(published)\<close> keeps the time value.
\<close>

type_synonym Date = int

text \<open>
  The \<^verbatim>\<open>data\<close> object of a collection entry.  Optional fields are options (\<open>None\<close> is
  an absent property).  The four link properties are the ones \<^verbatim>\<open>GetSortednotes\<close>
  writes through its \<^verbatim>\<open>as any\<close> casts; \<^verbatim>\<open>nextSlug\<close> and \<^verbatim>\<open>prevSlug\<close> hold whatever
  the neighbour's \<^verbatim>\<open>slug\<close> is, which may itself be \<^verbatim>\<open>undefined\<close>, hence the nested option.
\<close>

record entry_data =
  title :: string
  published :: Date
  draft :: "bool option"
  tags :: "string list option"
  category :: "string option"
  nextSlug :: "string option option"
  nextTitle :: "string option"
  prevSlug :: "string option option"
  prevTitle :: "string option"

record entry =
  entry_id :: string
  entry_slug :: "string option"
  data :: entry_data

text \<open>Interface \<^verbatim>\<open>Notes\<close>: title, id, date and optional tags.\<close>

record Notes =
  Notes_title :: string
  Notes_id :: string
  Notes_date :: Date
  Notes_tags :: "string list option"

text \<open>Interfaces \<^verbatim>\<open>Tag\<close> and \<^verbatim>\<open>Category\<close> have the same shape.\<close>

record Tag =
  Tag_name :: string
  Tag_slug :: string
  Tag_notes :: "Notes list"

type_synonym Category = Tag

datatype error = TypeError

section \<open>The document source and the runtime library\<close>

text \<open>
  \<^verbatim>\<open>getCollection("notes", filter)\<close> of the content library: the entries of the store, in
  the store's order, for which the filter callback returns true.
\<close>

definition getCollection :: "entry list \<Rightarrow> (entry \<Rightarrow> bool) \<Rightarrow> entry list" where
  "getCollection store p = filter p store"

text \<open>
  The callback every view passes:
  \<^verbatim>\<open>({ data }) => import.meta.env.PROD ? data.draft !== true : true\<close>.
\<close>

definition draftFilter :: "bool \<Rightarrow> entry \<Rightarrow> bool" where
  "draftFilter env_PROD e = (if env_PROD then draft (data e) \<noteq> Some True else True)"

text \<open>
  \<^verbatim>\<open>Array.prototype.sort(comparefn)\<close> belongs to the JavaScript engine.  It is modelled as
  the insertion sort the engine runs: the elements are taken in array order, and each one
  is placed in the already sorted prefix in front of the first element \<open>y\<close> with
  \<^verbatim>\<open>comparefn(x, y) < 0\<close>.  The comparator's result is only ever tested for being
  negative, which is how an engine that sorts by binary insertion and merging consults
  it.  The comparators of this program never return 0, so what they do on equal dates is
  decided by exactly this test.
\<close>

fun insert_sorted :: "('a \<Rightarrow> 'a \<Rightarrow> int) \<Rightarrow> 'a \<Rightarrow> 'a list \<Rightarrow> 'a list" where
  "insert_sorted comparefn x [] = [x]"
| "insert_sorted comparefn x (y # ys) =
     (if comparefn x y < 0 then x # y # ys else y # insert_sorted comparefn x ys)"

definition Array_sort :: "('a \<Rightarrow> 'a \<Rightarrow> int) \<Rightarrow> 'a list \<Rightarrow> 'a list" where
  "Array_sort comparefn xs = foldl (\<lambda>done x. insert_sorted comparefn x done) [] xs"

section \<open>Chronological sequence\<close>

text \<open>The comparator of \<^verbatim>\<open>getSortedNotes\<close> and \<^verbatim>\<open>GetSortednotes\<close>.\<close>

definition compare_published :: "entry \<Rightarrow> entry \<Rightarrow> int" where
  "compare_published a b =
     (let dateA = published (data a); dateB = published (data b)
      in if dateA > dateB then - 1 else 1)"

text \<open>\<^verbatim>\<open>getSortedNotes\<close> of \<^verbatim>\<open>src/utils/notes.ts\<close>.\<close>

definition getSortedNotes :: "bool \<Rightarrow> entry list \<Rightarrow> entry list" where
  "getSortedNotes env_PROD store =
     (let allNotes = getCollection store (draftFilter env_PROD)
      in Array_sort compare_published allNotes)"

text \<open>
  First loop of \<^verbatim>\<open>GetSortednotes\<close>, from \<open>i = 1\<close>: entry \<open>i\<close> receives the slug and the
  title of entry \<open>i - 1\<close>.
\<close>

function link_next :: "nat \<Rightarrow> entry list \<Rightarrow> entry list" where
  "link_next i sorted' =
     (if i < length sorted'
      then link_next (i + 1)
             (sorted'[i := (sorted' ! i)\<lparr>data := (data (sorted' ! i))
                \<lparr>nextSlug := Some (entry_slug (sorted' ! (i - 1))),
                 nextTitle := Some (title (data (sorted' ! (i - 1))))\<rparr>\<rparr>])
      else sorted')"
  by pat_completeness auto
termination
  by (relation "measure (\<lambda>(i, sorted'). length sorted' - i)") auto

text \<open>
  Second loop, from \<open>i = 0\<close> while \<^verbatim>\<open>i < sorted.length - 1\<close> (the bound is \<open>-1\<close> on the
  empty array): entry \<open>i\<close> receives the slug and the title of entry \<open>i + 1\<close>.
\<close>

function link_prev :: "nat \<Rightarrow> entry list \<Rightarrow> entry list" where
  "link_prev i sorted' =
     (if int i < int (length sorted') - 1
      then link_prev (i + 1)
             (sorted'[i := (sorted' ! i)\<lparr>data := (data (sorted' ! i))
                \<lparr>prevSlug := Some (entry_slug (sorted' ! (i + 1))),
                 prevTitle := Some (title (data (sorted' ! (i + 1))))\<rparr>\<rparr>])
      else sorted')"
  by pat_completeness auto
termination
  by (relation "measure (\<lambda>(i, sorted'). length sorted' - i)") auto

declare link_next.simps [simp del] link_prev.simps [simp del]

definition GetSortednotes :: "bool \<Rightarrow> entry list \<Rightarrow> entry list" where
  "GetSortednotes env_PROD store =
     (let allBlognotes = getCollection store (draftFilter env_PROD);
          sorted' = Array_sort compare_published allBlognotes
      in link_prev 0 (link_next 1 sorted'))"

section \<open>Insertion-ordered maps\<close>

text \<open>
  A JavaScript \<^verbatim>\<open>Map\<close> iterates in insertion order, so it is a list of key-value pairs
  with distinct keys.  \<^verbatim>\<open>set\<close> on a key that is present replaces the value where it
  stands, and on a new key appends the pair.  \<^verbatim>\<open>get\<close> of an absent key is
  \<^verbatim>\<open>undefined\<close>, here \<open>None\<close>.
\<close>

type_synonym ('k, 'v) JSMap = "('k \<times> 'v) list"

definition Map_has :: "('k, 'v) JSMap \<Rightarrow> 'k \<Rightarrow> bool" where
  "Map_has m k = (map_of m k \<noteq> None)"

definition Map_get :: "('k, 'v) JSMap \<Rightarrow> 'k \<Rightarrow> 'v option" where
  "Map_get m k = map_of m k"

definition Map_set :: "'k \<Rightarrow> 'v \<Rightarrow> ('k, 'v) JSMap \<Rightarrow> ('k, 'v) JSMap" where
  "Map_set k v m = AList.update k v m"

text \<open>\<^verbatim>\<open>new Map(entries)\<close>: the pairs are set one after the other.\<close>

definition new_Map :: "('k \<times> 'v) list \<Rightarrow> ('k, 'v) JSMap" where
  "new_Map entries = foldl (\<lambda>m (k, v). Map_set k v m) [] entries"

section \<open>Navigation entries\<close>

text \<open>
  The object literal pushed by \<^verbatim>\<open>GetNotes\<close>, \<^verbatim>\<open>GetTags\<close> and \<^verbatim>\<open>GetCategories\<close>.
  \<^verbatim>\<open>IdToSlug\<close> is imported from \<^verbatim>\<open>./hash\<close> and is a parameter here.
\<close>

definition note_item :: "(string \<Rightarrow> string) \<Rightarrow> entry \<Rightarrow> Notes" where
  "note_item IdToSlug note =
     \<lparr>Notes_title = title (data note),
      Notes_id = ''/notes/'' @ IdToSlug (entry_id note),
      Notes_date = published (data note),
      Notes_tags = tags (data note)\<rparr>"

section \<open>Year index\<close>

text \<open>
  One turn of the \<^verbatim>\<open>for ... of\<close> loop of \<^verbatim>\<open>GetNotes\<close>.  \<^verbatim>\<open>getFullYear\<close> is the engine's
  (it depends on the time zone) and is a parameter.  \<^verbatim>\<open>notes.get(year)!.push(...)\<close>
  extends the array held under the key; on \<^verbatim>\<open>undefined\<close> it would throw a TypeError.
\<close>

definition GetNotes_step ::
  "(Date \<Rightarrow> int) \<Rightarrow> (string \<Rightarrow> string) \<Rightarrow> (int, Notes list) JSMap \<Rightarrow> entry
     \<Rightarrow> error + (int, Notes list) JSMap" where
  "GetNotes_step getFullYear IdToSlug notes note =
     (let date = published (data note);
          year = getFullYear date;
          notes1 = (if \<not> Map_has notes year then Map_set year [] notes else notes)
      in case Map_get notes1 year of
           None \<Rightarrow> Inl TypeError
         | Some arr \<Rightarrow> Inr (Map_set year (arr @ [note_item IdToSlug note]) notes1))"

fun GetNotes_loop ::
  "(Date \<Rightarrow> int) \<Rightarrow> (string \<Rightarrow> string) \<Rightarrow> entry list \<Rightarrow> (int, Notes list) JSMap
     \<Rightarrow> error + (int, Notes list) JSMap" where
  "GetNotes_loop getFullYear IdToSlug [] notes = Inr notes"
| "GetNotes_loop getFullYear IdToSlug (note # rest) notes =
     (case GetNotes_step getFullYear IdToSlug notes note of
        Inl e \<Rightarrow> Inl e
      | Inr notes' \<Rightarrow> GetNotes_loop getFullYear IdToSlug rest notes')"

text \<open>The comparators \<^verbatim>\<open>(a, b) => b[0] - a[0]\<close> and \<^verbatim>\<open>(a, b) => (a.date > b.date ? -1 : 1)\<close>.\<close>

definition compare_year :: "int \<times> 'v \<Rightarrow> int \<times> 'v \<Rightarrow> int" where
  "compare_year a b = fst b - fst a"

definition compare_date :: "Notes \<Rightarrow> Notes \<Rightarrow> int" where
  "compare_date a b = (if Notes_date a > Notes_date b then - 1 else 1)"

definition GetNotes ::
  "(Date \<Rightarrow> int) \<Rightarrow> (string \<Rightarrow> string) \<Rightarrow> bool \<Rightarrow> entry list
     \<Rightarrow> error + (int, Notes list) JSMap" where
  "GetNotes getFullYear IdToSlug env_PROD store =
     (let allBlognotes = getCollection store (draftFilter env_PROD)
      in case GetNotes_loop getFullYear IdToSlug allBlognotes [] of
           Inl e \<Rightarrow> Inl e
         | Inr notes \<Rightarrow>
             (let sortedNotes = new_Map (Array_sort compare_year notes)
              in Inr (map (\<lambda>(year, value). (year, Array_sort compare_date value)) sortedNotes)))"

section \<open>Tag index\<close>

text \<open>The body of the inner \<^verbatim>\<open>forEach\<close> of \<^verbatim>\<open>GetTags\<close>, for one tag of one note.\<close>

definition GetTags_step ::
  "(string \<Rightarrow> string) \<Rightarrow> entry \<Rightarrow> (string, Tag) JSMap \<Rightarrow> string
     \<Rightarrow> error + (string, Tag) JSMap" where
  "GetTags_step IdToSlug note tags' tag =
     (let tagSlug = IdToSlug tag;
          tags1 = (if \<not> Map_has tags' tagSlug
                   then Map_set tagSlug
                          \<lparr>Tag_name = tag, Tag_slug = ''/tags/'' @ tagSlug, Tag_notes = []\<rparr> tags'
                   else tags')
      in case Map_get tags1 tagSlug of
           None \<Rightarrow> Inl TypeError
         | Some t \<Rightarrow>
             Inr (Map_set tagSlug (t\<lparr>Tag_notes := Tag_notes t @ [note_item IdToSlug note]\<rparr>) tags1))"

fun GetTags_inner ::
  "(string \<Rightarrow> string) \<Rightarrow> entry \<Rightarrow> string list \<Rightarrow> (string, Tag) JSMap
     \<Rightarrow> error + (string, Tag) JSMap" where
  "GetTags_inner IdToSlug note [] tags' = Inr tags'"
| "GetTags_inner IdToSlug note (tag # rest) tags' =
     (case GetTags_step IdToSlug note tags' tag of
        Inl e \<Rightarrow> Inl e
      | Inr tags'' \<Rightarrow> GetTags_inner IdToSlug note rest tags'')"

text \<open>The outer \<^verbatim>\<open>forEach\<close>; \<^verbatim>\<open>note.data.tags?.forEach\<close> does nothing when tags is absent.\<close>

fun GetTags_outer ::
  "(string \<Rightarrow> string) \<Rightarrow> entry list \<Rightarrow> (string, Tag) JSMap \<Rightarrow> error + (string, Tag) JSMap" where
  "GetTags_outer IdToSlug [] tags' = Inr tags'"
| "GetTags_outer IdToSlug (note # rest) tags' =
     (case (case tags (data note) of
              None \<Rightarrow> Inr tags'
            | Some ts \<Rightarrow> GetTags_inner IdToSlug note ts tags') of
        Inl e \<Rightarrow> Inl e
      | Inr tags'' \<Rightarrow> GetTags_outer IdToSlug rest tags'')"

definition GetTags ::
  "(string \<Rightarrow> string) \<Rightarrow> bool \<Rightarrow> entry list \<Rightarrow> error + (string, Tag) JSMap" where
  "GetTags IdToSlug env_PROD store =
     (let allBlognotes = getCollection store (draftFilter env_PROD)
      in GetTags_outer IdToSlug allBlognotes [])"

section \<open>Category index\<close>

text \<open>
  The callback of the \<^verbatim>\<open>forEach\<close> of \<^verbatim>\<open>GetCategories\<close>.  \<^verbatim>\<open>!note.data.category\<close> holds for
  an absent category and for the empty string: the callback returns at once.
\<close>

definition GetCategories_step ::
  "(string \<Rightarrow> string) \<Rightarrow> (string, Category) JSMap \<Rightarrow> entry
     \<Rightarrow> error + (string, Category) JSMap" where
  "GetCategories_step IdToSlug categories note =
     (case category (data note) of
        None \<Rightarrow> Inr categories
      | Some c \<Rightarrow>
          if c = [] then Inr categories
          else
            (let categorySlug = IdToSlug c;
                 categories1 = (if \<not> Map_has categories categorySlug
                   then Map_set categorySlug
                          \<lparr>Tag_name = c, Tag_slug = ''/categories/'' @ categorySlug,
                           Tag_notes = []\<rparr> categories
                   else categories)
             in case Map_get categories1 categorySlug of
                  None \<Rightarrow> Inl TypeError
                | Some t \<Rightarrow>
                    Inr (Map_set categorySlug
                           (t\<lparr>Tag_notes := Tag_notes t @ [note_item IdToSlug note]\<rparr>)
                           categories1)))"

fun GetCategories_loop ::
  "(string \<Rightarrow> string) \<Rightarrow> entry list \<Rightarrow> (string, Category) JSMap
     \<Rightarrow> error + (string, Category) JSMap" where
  "GetCategories_loop IdToSlug [] categories = Inr categories"
| "GetCategories_loop IdToSlug (note # rest) categories =
     (case GetCategories_step IdToSlug categories note of
        Inl e \<Rightarrow> Inl e
      | Inr categories' \<Rightarrow> GetCategories_loop IdToSlug rest categories')"

definition GetCategories ::
  "(string \<Rightarrow> string) \<Rightarrow> bool \<Rightarrow> entry list \<Rightarrow> error + (string, Category) JSMap" where
  "GetCategories IdToSlug env_PROD store =
     (let allBlognotes = getCollection store (draftFilter env_PROD)
      in GetCategories_loop IdToSlug allBlognotes [])"

section \<open>Example documents\<close>

text \<open>
  Three documents of an example store and a draft sharing the date of the first; two
  tag names and two category names differ only in case.
\<close>

definition ex_A :: entry where
  "ex_A = \<lparr>entry_id = ''a.md'', entry_slug = Some ''a'',
     data = \<lparr>title = ''A'', published = 1704844800000, draft = None,
       tags = Some [''t1'', ''t2''], category = Some ''Tech'',
       nextSlug = None, nextTitle = None, prevSlug = None, prevTitle = None\<rparr>\<rparr>"

definition ex_B :: entry where
  "ex_B = \<lparr>entry_id = ''b.md'', entry_slug = Some ''b'',
     data = \<lparr>title = ''B'', published = 1717200000000, draft = Some False,
       tags = Some [''T1''], category = Some ''tech'',
       nextSlug = None, nextTitle = None, prevSlug = None, prevTitle = None\<rparr>\<rparr>"

definition ex_C :: entry where
  "ex_C = \<lparr>entry_id = ''c.md'', entry_slug = Some ''c'',
     data = \<lparr>title = ''C'', published = 1701388800000, draft = None,
       tags = None, category = None,
       nextSlug = None, nextTitle = None, prevSlug = None, prevTitle = None\<rparr>\<rparr>"

definition ex_D :: entry where
  "ex_D = \<lparr>entry_id = ''d.md'', entry_slug = Some ''d'',
     data = \<lparr>title = ''D'', published = 1704844800000, draft = Some True,
       tags = Some [''t2''], category = Some '''',
       nextSlug = None, nextTitle = None, prevSlug = None, prevTitle = None\<rparr>\<rparr>"

definition ex_store :: "entry list" where
  "ex_store = [ex_A, ex_B, ex_C, ex_D]"

definition ex_getFullYear :: "Date \<Rightarrow> int" where
  "ex_getFullYear d = (if d < 1704067200000 then 2023 else 2024)"

definition ex_IdToSlug :: "string \<Rightarrow> string" where
  "ex_IdToSlug s = map (\<lambda>c. if c = CHR ''T'' then CHR ''t'' else c) s"

section \<open>Auxiliary notions for stating the properties\<close>

text \<open>
  The document an element of the chronological sequence stands for: the element without
  the four link properties that \<^verbatim>\<open>GetSortednotes\<close> writes.
\<close>

definition without_links :: "entry \<Rightarrow> entry" where
  "without_links e =
     e\<lparr>data := (data e)\<lparr>nextSlug := None, nextTitle := None,
                          prevSlug := None, prevTitle := None\<rparr>\<rparr>"

text \<open>
  The (name, document) pairs in the order in which \<^verbatim>\<open>GetTags\<close> meets them: document by
  document, and within a document tag by tag.
\<close>

definition tag_pairs :: "entry list \<Rightarrow> (string \<times> entry) list" where
  "tag_pairs docs =
     concat (map (\<lambda>d. map (\<lambda>t. (t, d)) (case tags (data d) of None \<Rightarrow> [] | Some ts \<Rightarrow> ts)) docs)"

text \<open>The same for \<^verbatim>\<open>GetCategories\<close>: a document with a non-empty category gives one pair.\<close>

definition category_pairs :: "entry list \<Rightarrow> (string \<times> entry) list" where
  "category_pairs docs =
     concat (map (\<lambda>d. case category (data d) of
                          None \<Rightarrow> []
                        | Some c \<Rightarrow> if c = [] then [] else [(c, d)]) docs)"

text \<open>
  The record that an index holds under the slug \<open>s\<close> once the given pairs have been
  processed: none when no name of the pairs has this slug; otherwise the name of the
  first such pair, the path, and one entry for each such pair, in order.
\<close>

definition index_record ::
  "string \<Rightarrow> (string \<Rightarrow> string) \<Rightarrow> (string \<times> entry) list \<Rightarrow> string \<Rightarrow> Tag option" where
  "index_record path IdToSlug pairs s =
     (case filter (\<lambda>(n, d). IdToSlug n = s) pairs of
        [] \<Rightarrow> None
      | (n0, d0) # rest \<Rightarrow>
          Some \<lparr>Tag_name = n0, Tag_slug = path @ s,
                Tag_notes = map (\<lambda>(n, d). note_item IdToSlug d) ((n0, d0) # rest)\<rparr>)"

text \<open>One name of one document put into an index.\<close>

definition index_add ::
  "string \<Rightarrow> (string \<Rightarrow> string) \<Rightarrow> (string, Tag) JSMap \<Rightarrow> string \<times> entry \<Rightarrow> (string, Tag) JSMap" where
  "index_add path IdToSlug m p =
     (case map_of m (IdToSlug (fst p)) of
        None \<Rightarrow> m @ [(IdToSlug (fst p),
                  \<lparr>Tag_name = fst p, Tag_slug = path @ IdToSlug (fst p),
                   Tag_notes = [note_item IdToSlug (snd p)]\<rparr>)]
      | Some t \<Rightarrow> AList.update (IdToSlug (fst p))
                  (t\<lparr>Tag_notes := Tag_notes t @ [note_item IdToSlug (snd p)]\<rparr>) m)"

section \<open>Sorting with a comparator that is negative exactly on a greater key\<close>


lemma set_insert_sorted: "set (insert_sorted cmp x ys) = insert x (set ys)"
  by (induction ys) auto

lemma mset_insert_sorted: "mset (insert_sorted cmp x ys) = add_mset x (mset ys)"
  by (induction ys) auto

lemma sorted_insert_sorted:
  fixes k :: "'a \<Rightarrow> int"
  assumes "\<And>a b. (cmp a b < 0) = (k b < k a)"
  shows "sorted_wrt (\<lambda>a b. k b \<le> k a) ys \<Longrightarrow> sorted_wrt (\<lambda>a b. k b \<le> k a) (insert_sorted cmp x ys)"
  by (induction ys) (auto simp: set_insert_sorted assms)

lemma filter_insert_sorted:
  fixes k :: "'a \<Rightarrow> int"
  assumes "\<And>a b. (cmp a b < 0) = (k b < k a)"
  shows "sorted_wrt (\<lambda>a b. k b \<le> k a) ys \<Longrightarrow>
    filter (\<lambda>a. k a = d) (insert_sorted cmp x ys) = filter (\<lambda>a. k a = d) ys @ (if k x = d then [x] else [])"
proof (induction ys)
  case Nil
  then show ?case by simp
next
  case (Cons y ys)
  show ?case
  proof (cases "cmp x y < 0")
    case True
    then have lt: "k y < k x" by (simp add: assms)
    have "\<forall>z\<in>set (y # ys). k z < k x" using Cons.prems lt by auto
    then have "k x = d \<Longrightarrow> filter (\<lambda>a. k a = d) (y # ys) = []"
      by (auto simp: filter_empty_conv)
    then show ?thesis using True by auto
  next
    case False
    then show ?thesis using Cons by auto
  qed
qed

lemma foldl_insert_sorted:
  fixes k :: "'a \<Rightarrow> int"
  assumes "\<And>a b. (cmp a b < 0) = (k b < k a)"
  shows "sorted_wrt (\<lambda>a b. k b \<le> k a) acc \<Longrightarrow>
    sorted_wrt (\<lambda>a b. k b \<le> k a) (foldl (\<lambda>done x. insert_sorted cmp x done) acc xs) \<and>
    filter (\<lambda>a. k a = d) (foldl (\<lambda>done x. insert_sorted cmp x done) acc xs)
      = filter (\<lambda>a. k a = d) acc @ filter (\<lambda>a. k a = d) xs"
proof (induction xs arbitrary: acc)
  case Nil
  then show ?case by simp
next
  case (Cons x xs)
  have s: "sorted_wrt (\<lambda>a b. k b \<le> k a) (insert_sorted cmp x acc)"
    using Cons.prems assms by (rule sorted_insert_sorted[rotated])
  show ?case using Cons.IH[OF s] filter_insert_sorted[where cmp=cmp and k=k and ys=acc and d=d and x=x, OF assms Cons.prems]
    by simp
qed

lemma mset_Array_sort: "mset (Array_sort cmp xs) = mset xs"
proof -
  have "mset (foldl (\<lambda>done x. insert_sorted cmp x done) acc xs) = mset acc + mset xs" for acc
    by (induction xs arbitrary: acc) (auto simp: mset_insert_sorted)
  then show ?thesis by (simp add: Array_sort_def)
qed

lemma set_Array_sort: "set (Array_sort cmp xs) = set xs"
  by (metis mset_Array_sort set_mset_mset)

lemma length_Array_sort: "length (Array_sort cmp xs) = length xs"
  by (metis mset_Array_sort size_mset)

lemma sorted_Array_sort:
  fixes k :: "'a \<Rightarrow> int"
  assumes "\<And>a b. (cmp a b < 0) = (k b < k a)"
  shows "sorted_wrt (\<lambda>a b. k b \<le> k a) (Array_sort cmp xs)"
  using foldl_insert_sorted[where cmp=cmp and k=k and acc="[]" and xs=xs, OF assms] by (simp add: Array_sort_def)

lemma stable_Array_sort:
  fixes k :: "'a \<Rightarrow> int"
  assumes "\<And>a b. (cmp a b < 0) = (k b < k a)"
  shows "filter (\<lambda>a. k a = d) (Array_sort cmp xs) = filter (\<lambda>a. k a = d) xs"
  using foldl_insert_sorted[where cmp=cmp and k=k and acc="[]" and xs=xs and d=d, OF assms] by (simp add: Array_sort_def)

lemma compare_published_neg:
  "(compare_published a b < 0) = (published (data b) < published (data a))"
  by (simp add: compare_published_def)

lemma compare_date_neg: "(compare_date a b < 0) = (Notes_date b < Notes_date a)"
  by (simp add: compare_date_def)

lemma compare_year_neg: "(compare_year a b < 0) = (fst b < fst a)"
  by (simp add: compare_year_def)

lemma link_next_length: "length (link_next i xs) = length xs"
  by (induction i xs rule: link_next.induct) (subst link_next.simps, simp)

lemma link_prev_length: "length (link_prev i xs) = length xs"
  by (induction i xs rule: link_prev.induct) (subst link_prev.simps, simp)


lemma link_next_nth:
  "j < length xs \<Longrightarrow> link_next i xs ! j =
     (if i \<le> j
      then (xs ! j)\<lparr>data := (data (xs ! j))
             \<lparr>nextSlug := Some (entry_slug (xs ! (j - 1))),
              nextTitle := Some (title (data (xs ! (j - 1))))\<rparr>\<rparr>
      else xs ! j)"
proof (induction i xs rule: link_next.induct)
  case (1 i xs)
  show ?case
  proof (cases "i < length xs")
    case True
    define u where "u = (xs ! i)\<lparr>data := (data (xs ! i))
             \<lparr>nextSlug := Some (entry_slug (xs ! (i - 1))),
              nextTitle := Some (title (data (xs ! (i - 1))))\<rparr>\<rparr>"
    have step: "link_next i xs = link_next (i + 1) (xs[i := u])"
      using True by (subst link_next.simps) (simp add: u_def)
    have IH: "link_next (i + 1) (xs[i := u]) ! j =
      (if i + 1 \<le> j
       then ((xs[i := u]) ! j)\<lparr>data := (data ((xs[i := u]) ! j))
             \<lparr>nextSlug := Some (entry_slug ((xs[i := u]) ! (j - 1))),
              nextTitle := Some (title (data ((xs[i := u]) ! (j - 1))))\<rparr>\<rparr>
       else (xs[i := u]) ! j)"
      using "1.IH"[OF True] "1.prems" by (simp add: u_def)
    have us: "entry_slug u = entry_slug (xs ! i)" "title (data u) = title (data (xs ! i))"
      by (simp_all add: u_def)
    consider "j < i" | "j = i" | "i < j" by linarith
    then show ?thesis
    proof cases
      case 1
      then show ?thesis using step IH by simp
    next
      case 2
      then show ?thesis using step IH True by (simp add: u_def)
    next
      case 3
      then have a: "(xs[i := u]) ! j = xs ! j" by simp
      have b: "entry_slug ((xs[i := u]) ! (j - 1)) = entry_slug (xs ! (j - 1))"
        "title (data ((xs[i := u]) ! (j - 1))) = title (data (xs ! (j - 1)))"
        using us True by (cases "j - 1 = i"; simp)+
      show ?thesis using 3 step IH a b by simp
    qed
  next
    case False
    then show ?thesis using "1.prems" by (subst link_next.simps) simp
  qed
qed

lemma link_prev_nth:
  "j < length xs \<Longrightarrow> link_prev i xs ! j =
     (if i \<le> j \<and> j + 1 < length xs
      then (xs ! j)\<lparr>data := (data (xs ! j))
             \<lparr>prevSlug := Some (entry_slug (xs ! (j + 1))),
              prevTitle := Some (title (data (xs ! (j + 1))))\<rparr>\<rparr>
      else xs ! j)"
proof (induction i xs rule: link_prev.induct)
  case (1 i xs)
  show ?case
  proof (cases "int i < int (length xs) - 1")
    case True
    then have il: "i + 1 < length xs" by linarith
    define u where "u = (xs ! i)\<lparr>data := (data (xs ! i))
             \<lparr>prevSlug := Some (entry_slug (xs ! (i + 1))),
              prevTitle := Some (title (data (xs ! (i + 1))))\<rparr>\<rparr>"
    have step: "link_prev i xs = link_prev (i + 1) (xs[i := u])"
      using True by (subst link_prev.simps) (simp add: u_def)
    have IH: "link_prev (i + 1) (xs[i := u]) ! j =
      (if i + 1 \<le> j \<and> j + 1 < length xs
       then ((xs[i := u]) ! j)\<lparr>data := (data ((xs[i := u]) ! j))
             \<lparr>prevSlug := Some (entry_slug ((xs[i := u]) ! (j + 1))),
              prevTitle := Some (title (data ((xs[i := u]) ! (j + 1))))\<rparr>\<rparr>
       else (xs[i := u]) ! j)"
      using "1.IH"[OF True] "1.prems" by (simp add: u_def)
    consider "j < i" | "j = i" | "i < j" by linarith
    then show ?thesis
    proof cases
      case 1
      then show ?thesis using step IH by simp
    next
      case 2
      then show ?thesis using step IH il by (simp add: u_def)
    next
      case 3
      then show ?thesis using step IH by simp
    qed
  next
    case False
    then have n: "\<not> (i \<le> j \<and> j + 1 < length xs)" by linarith
    have "link_prev i xs = xs" using False by (subst link_prev.simps) simp
    then show ?thesis using n by auto
  qed
qed

section \<open>The example store, evaluated\<close>

lemmas ex_defs = ex_store_def ex_A_def ex_B_def ex_C_def ex_D_def

lemma ex_sorted_True: "Array_sort compare_published (getCollection ex_store (draftFilter True)) = [ex_B, ex_A, ex_C]"
  by (simp add: ex_defs getCollection_def draftFilter_def Array_sort_def compare_published_def)

lemma ex_sorted_False: "Array_sort compare_published (getCollection ex_store (draftFilter False)) = [ex_B, ex_A, ex_D, ex_C]"
  by (simp add: ex_defs getCollection_def draftFilter_def Array_sort_def compare_published_def)

lemma ex_GetSortednotes_True: "GetSortednotes True ex_store =
   [ex_B\<lparr>data := (data ex_B)\<lparr>prevSlug := Some (Some ''a''), prevTitle := Some ''A''\<rparr>\<rparr>,
    ex_A\<lparr>data := (data ex_A)\<lparr>nextSlug := Some (Some ''b''), nextTitle := Some ''B'',
       prevSlug := Some (Some ''c''), prevTitle := Some ''C''\<rparr>\<rparr>,
    ex_C\<lparr>data := (data ex_C)\<lparr>nextSlug := Some (Some ''a''), nextTitle := Some ''A''\<rparr>\<rparr>]"
  unfolding GetSortednotes_def Let_def ex_sorted_True
  by (simp add: link_next.simps link_prev.simps ex_defs)

section \<open>Link stitching\<close>

lemma stitched_nth:
  assumes "j < length s"
  shows "link_prev 0 (link_next (Suc 0) s) ! j =
    (let a = (if 1 \<le> j
              then (s ! j)\<lparr>data := (data (s ! j))
                     \<lparr>nextSlug := Some (entry_slug (s ! (j - 1))),
                      nextTitle := Some (title (data (s ! (j - 1))))\<rparr>\<rparr>
              else s ! j)
     in if j + 1 < length s
        then a\<lparr>data := (data a)
               \<lparr>prevSlug := Some (entry_slug (s ! (j + 1))),
                prevTitle := Some (title (data (s ! (j + 1))))\<rparr>\<rparr>
        else a)"
proof -
  have a: "link_next (Suc 0) s ! j =
      (if 1 \<le> j
       then (s ! j)\<lparr>data := (data (s ! j))
              \<lparr>nextSlug := Some (entry_slug (s ! (j - 1))),
               nextTitle := Some (title (data (s ! (j - 1))))\<rparr>\<rparr>
       else s ! j)"
    using link_next_nth[OF assms, of "Suc 0"] by simp
  have b: "entry_slug (link_next (Suc 0) s ! (j + 1)) = entry_slug (s ! (j + 1))
      \<and> title (data (link_next (Suc 0) s ! (j + 1))) = title (data (s ! (j + 1)))"
    if "j + 1 < length s"
    using link_next_nth[OF that, of "Suc 0"] by simp
  have "link_prev 0 (link_next (Suc 0) s) ! j =
      (if j + 1 < length s
       then (link_next (Suc 0) s ! j)\<lparr>data := (data (link_next (Suc 0) s ! j))
              \<lparr>prevSlug := Some (entry_slug (link_next (Suc 0) s ! (j + 1))),
               prevTitle := Some (title (data (link_next (Suc 0) s ! (j + 1))))\<rparr>\<rparr>
       else link_next (Suc 0) s ! j)"
    using link_prev_nth[of j "link_next (Suc 0) s" 0] assms by (simp add: link_next_length)
  then show ?thesis
    unfolding Let_def a using b by (cases "j + 1 < length s") simp_all
qed

lemma stitched_length: "length (link_prev 0 (link_next (Suc 0) s)) = length s"
  by (simp add: link_prev_length link_next_length)

lemma stitched_kept:
  assumes "j < length s"
  shows "entry_id (link_prev 0 (link_next (Suc 0) s) ! j) = entry_id (s ! j)"
    and "entry_slug (link_prev 0 (link_next (Suc 0) s) ! j) = entry_slug (s ! j)"
    and "title (data (link_prev 0 (link_next (Suc 0) s) ! j)) = title (data (s ! j))"
    and "published (data (link_prev 0 (link_next (Suc 0) s) ! j)) = published (data (s ! j))"
  using stitched_nth[OF assms] by (simp_all add: Let_def)

lemma stitched_next:
  assumes "j < length s"
  shows "nextSlug (data (link_prev 0 (link_next (Suc 0) s) ! j)) =
           (if 1 \<le> j then Some (entry_slug (s ! (j - 1))) else nextSlug (data (s ! j)))"
    and "nextTitle (data (link_prev 0 (link_next (Suc 0) s) ! j)) =
           (if 1 \<le> j then Some (title (data (s ! (j - 1)))) else nextTitle (data (s ! j)))"
  using stitched_nth[OF assms] by (simp_all add: Let_def)

lemma stitched_prev:
  assumes "j < length s"
  shows "prevSlug (data (link_prev 0 (link_next (Suc 0) s) ! j)) =
           (if j + 1 < length s then Some (entry_slug (s ! (j + 1))) else prevSlug (data (s ! j)))"
    and "prevTitle (data (link_prev 0 (link_next (Suc 0) s) ! j)) =
           (if j + 1 < length s then Some (title (data (s ! (j + 1)))) else prevTitle (data (s ! j)))"
  using stitched_nth[OF assms] by (simp_all add: Let_def)

lemma sorted_published:
  "sorted_wrt (\<lambda>a b. published (data b) \<le> published (data a)) (Array_sort compare_published xs)"
  by (rule sorted_Array_sort[where k = "\<lambda>e. published (data e)"]) (rule compare_published_neg)

lemma set_getCollection: "set (getCollection store p) \<subseteq> set store"
  by (auto simp: getCollection_def)

lemma GetSortednotes_ends:
  assumes nl: "\<forall>e \<in> set store. nextSlug (data e) = None \<and> nextTitle (data e) = None
                            \<and> prevSlug (data e) = None \<and> prevTitle (data e) = None"
    and ne: "GetSortednotes env_PROD store \<noteq> []"
  shows "nextSlug (data (GetSortednotes env_PROD store ! 0)) = None
       \<and> nextTitle (data (GetSortednotes env_PROD store ! 0)) = None
       \<and> prevSlug (data (GetSortednotes env_PROD store
             ! (length (GetSortednotes env_PROD store) - Suc 0))) = None
       \<and> prevTitle (data (GetSortednotes env_PROD store
             ! (length (GetSortednotes env_PROD store) - Suc 0))) = None"
proof -
  define s where "s = Array_sort compare_published (getCollection store (draftFilter env_PROD))"
  define out where "out = GetSortednotes env_PROD store"
  have g: "out = link_prev 0 (link_next (Suc 0) s)"
    by (simp add: out_def GetSortednotes_def s_def)
  have len: "length out = length s" by (simp add: g stitched_length)
  have sub: "set s \<subseteq> set store"
    using set_getCollection by (simp add: s_def set_Array_sort)
  have "0 < length out" using ne by (simp add: out_def)
  then have i: "0 < length s" "length s - Suc 0 < length s" unfolding len by simp_all
  have m: "s ! 0 \<in> set store" "s ! (length s - Suc 0) \<in> set store"
    using i sub nth_mem by blast+
  have l: "\<not> (length s - Suc 0) + 1 < length s" by simp
  have "nextSlug (data (out ! 0)) = None \<and> nextTitle (data (out ! 0)) = None"
    unfolding g using nl m(1) by (simp add: stitched_next[OF i(1)])
  moreover have "prevSlug (data (out ! (length out - Suc 0))) = None
         \<and> prevTitle (data (out ! (length out - Suc 0))) = None"
    unfolding len unfolding g using nl m(2) l by (simp add: stitched_prev[OF i(2)])
  ultimately show ?thesis unfolding out_def by simp
qed

section \<open>Filtering\<close>

text \<open>
  Claim C1.  In production the filtering step keeps exactly the documents whose draft flag
  is not true: a document with the flag absent or false survives and one with the flag
  true is removed, in the store's order.  Outside production every document is kept.
\<close>

theorem draftFilter_keeps:
  "getCollection D (draftFilter True)
     = filter (\<lambda>d. draft (data d) = None \<or> draft (data d) = Some False) D
   \<and> set (getCollection D (draftFilter True)) = {d \<in> set D. draft (data d) \<noteq> Some True}
   \<and> getCollection D (draftFilter False) = D"
proof -
  have eq: "(draft (data d) \<noteq> Some True) = (draft (data d) = None \<or> draft (data d) = Some False)"
    for d :: entry
    by (cases "draft (data d)") auto
  have t: "draftFilter True = (\<lambda>d. draft (data d) \<noteq> Some True)"
    by (simp add: draftFilter_def fun_eq_iff)
  have f: "draftFilter False = (\<lambda>d. True)"
    by (simp add: draftFilter_def fun_eq_iff)
  have 1: "getCollection D (draftFilter True)
     = filter (\<lambda>d. draft (data d) = None \<or> draft (data d) = Some False) D"
    unfolding getCollection_def t by (simp add: eq)
  have 2: "set (getCollection D (draftFilter True)) = {d \<in> set D. draft (data d) \<noteq> Some True}"
    unfolding getCollection_def t by simp
  have 3: "getCollection D (draftFilter False) = D"
    unfolding getCollection_def f by simp
  show ?thesis using 1 2 3 by blast
qed

section \<open>Order of the chronological sequence\<close>

text \<open>
  Claim C2.  In the sequences returned by \<^verbatim>\<open>GetSortednotes\<close> and \<^verbatim>\<open>getSortedNotes\<close>, the
  published date at every position \<open>i\<close> is greater than or equal to the one at position
  \<open>i + 1\<close>.
\<close>

theorem sorted_by_published:
  "(\<forall>i. i + 1 < length (GetSortednotes env_PROD store) \<longrightarrow>
       published (data (GetSortednotes env_PROD store ! (i + 1)))
         \<le> published (data (GetSortednotes env_PROD store ! i)))
   \<and> (\<forall>i. i + 1 < length (getSortedNotes env_PROD store) \<longrightarrow>
       published (data (getSortedNotes env_PROD store ! (i + 1)))
         \<le> published (data (getSortedNotes env_PROD store ! i)))"
proof -
  define s where "s = Array_sort compare_published (getCollection store (draftFilter env_PROD))"
  have srt: "i + 1 < length s \<Longrightarrow> published (data (s ! (i + 1))) \<le> published (data (s ! i))" for i
    using sorted_published[of "getCollection store (draftFilter env_PROD)"]
    by (simp add: s_def sorted_wrt_iff_nth_less)
  have g: "GetSortednotes env_PROD store = link_prev 0 (link_next (Suc 0) s)"
    by (simp add: GetSortednotes_def s_def)
  have n: "getSortedNotes env_PROD store = s"
    by (simp add: getSortedNotes_def s_def)
  have "published (data (link_prev 0 (link_next (Suc 0) s) ! (i + 1)))
          \<le> published (data (link_prev 0 (link_next (Suc 0) s) ! i))"
    if "i + 1 < length (link_prev 0 (link_next (Suc 0) s))" for i
  proof -
    have i: "i < length s" "i + 1 < length s" using that by (simp_all add: stitched_length)
    show ?thesis unfolding stitched_kept(4)[OF i(1)] stitched_kept(4)[OF i(2)]
      using srt[OF i(2)] .
  qed
  then show ?thesis
    unfolding g n using srt by blast
qed

text \<open>On the example store in production: the first two dates, in this order.\<close>

theorem sorted_by_published_witness:
  "(0::nat) + 1 < length (GetSortednotes True ex_store)
   \<and> published (data (GetSortednotes True ex_store ! (0 + 1)))
        \<le> published (data (GetSortednotes True ex_store ! 0))
   \<and> published (data (GetSortednotes True ex_store ! 0)) = 1717200000000
   \<and> published (data (GetSortednotes True ex_store ! 1)) = 1704844800000"
proof -
  have h: "(0::nat) + 1 < length (GetSortednotes True ex_store)"
    by (simp add: ex_GetSortednotes_True)
  have "published (data (GetSortednotes True ex_store ! (0 + 1)))
        \<le> published (data (GetSortednotes True ex_store ! 0))"
    using sorted_by_published[of True ex_store] h by blast
  then show ?thesis using h unfolding ex_GetSortednotes_True by (simp add: ex_defs)
qed

section \<open>Navigation links\<close>

text \<open>
  Claim C3.  In the sequence returned by \<^verbatim>\<open>GetSortednotes\<close>, every element at a position
  \<open>i \<ge> 1\<close> has \<^verbatim>\<open>nextSlug\<close> and \<^verbatim>\<open>nextTitle\<close> equal to the slug and title of the element
  at \<open>i - 1\<close>, and every element before the last position has \<^verbatim>\<open>prevSlug\<close> and
  \<^verbatim>\<open>prevTitle\<close> equal to the slug and title of the element at \<open>i + 1\<close>.  The link
  fields are otherwise absent: for documents that arrive without link fields, the
  element at position 0 has no next fields and the last element has no prev fields.
\<close>

theorem link_fields:
  fixes env_PROD store
  defines "out \<equiv> GetSortednotes env_PROD store"
  shows "(\<forall>i. 1 \<le> i \<and> i < length out \<longrightarrow>
            nextSlug (data (out ! i)) = Some (entry_slug (out ! (i - 1)))
          \<and> nextTitle (data (out ! i)) = Some (title (data (out ! (i - 1)))))
       \<and> (\<forall>i. i + 1 < length out \<longrightarrow>
            prevSlug (data (out ! i)) = Some (entry_slug (out ! (i + 1)))
          \<and> prevTitle (data (out ! i)) = Some (title (data (out ! (i + 1)))))
       \<and> ((\<forall>e \<in> set store. nextSlug (data e) = None \<and> nextTitle (data e) = None
                            \<and> prevSlug (data e) = None \<and> prevTitle (data e) = None) \<longrightarrow>
           out \<noteq> [] \<longrightarrow>
             nextSlug (data (out ! 0)) = None \<and> nextTitle (data (out ! 0)) = None
           \<and> prevSlug (data (out ! (length out - 1))) = None
           \<and> prevTitle (data (out ! (length out - 1))) = None)"
proof -
  define s where "s = Array_sort compare_published (getCollection store (draftFilter env_PROD))"
  have g: "out = link_prev 0 (link_next (Suc 0) s)"
    by (simp add: out_def GetSortednotes_def s_def)
  have len: "length out = length s" by (simp add: g stitched_length)
  have sub: "set s \<subseteq> set store"
    using set_getCollection by (simp add: s_def set_Array_sort)
  have nx: "nextSlug (data (out ! i)) = Some (entry_slug (out ! (i - 1)))
          \<and> nextTitle (data (out ! i)) = Some (title (data (out ! (i - 1))))"
    if "1 \<le> i" "i < length out" for i
  proof -
    have i: "i < length s" "i - Suc 0 < length s" using that len by auto
    show ?thesis unfolding g using that(1)
      by (simp add: stitched_next[OF i(1)] stitched_kept[OF i(2)])
  qed
  have pv: "prevSlug (data (out ! i)) = Some (entry_slug (out ! (i + 1)))
          \<and> prevTitle (data (out ! i)) = Some (title (data (out ! (i + 1))))"
    if "i + 1 < length out" for i
  proof -
    have i: "i < length s" "Suc i < length s" using that len by auto
    show ?thesis unfolding g using i(2)
      by (simp add: stitched_prev[OF i(1)] stitched_kept[OF i(2)])
  qed
  have ab: "nextSlug (data (out ! 0)) = None \<and> nextTitle (data (out ! 0)) = None
           \<and> prevSlug (data (out ! (length out - 1))) = None
           \<and> prevTitle (data (out ! (length out - 1))) = None"
    if "\<forall>e \<in> set store. nextSlug (data e) = None \<and> nextTitle (data e) = None
                            \<and> prevSlug (data e) = None \<and> prevTitle (data e) = None"
      and "out \<noteq> []"
    using GetSortednotes_ends[of store env_PROD] that unfolding out_def by simp
  show ?thesis using nx pv ab by blast
qed

text \<open>On the example store in production, which holds B, A, C in this order.\<close>

theorem link_fields_witness:
  "(1::nat) \<le> 1 \<and> 1 < length (GetSortednotes True ex_store)
   \<and> nextSlug (data (GetSortednotes True ex_store ! 1)) = Some (Some ''b'')
   \<and> nextTitle (data (GetSortednotes True ex_store ! 1)) = Some ''B''
   \<and> prevSlug (data (GetSortednotes True ex_store ! 1)) = Some (Some ''c'')
   \<and> prevTitle (data (GetSortednotes True ex_store ! 1)) = Some ''C''
   \<and> nextSlug (data (GetSortednotes True ex_store ! 0)) = None
   \<and> prevSlug (data (GetSortednotes True ex_store ! 2)) = None"
proof -
  have h1: "(1::nat) \<le> 1 \<and> 1 < length (GetSortednotes True ex_store)"
    and h2: "(1::nat) + 1 < length (GetSortednotes True ex_store)"
    and h3: "GetSortednotes True ex_store \<noteq> []"
    and l: "length (GetSortednotes True ex_store) - 1 = 2"
    by (simp_all add: ex_GetSortednotes_True)
  have h4: "\<forall>e \<in> set ex_store. nextSlug (data e) = None \<and> nextTitle (data e) = None
                            \<and> prevSlug (data e) = None \<and> prevTitle (data e) = None"
    by (simp add: ex_defs)
  note L = link_fields[of True ex_store]
  have a: "nextSlug (data (GetSortednotes True ex_store ! 1))
             = Some (entry_slug (GetSortednotes True ex_store ! (1 - 1)))
         \<and> nextTitle (data (GetSortednotes True ex_store ! 1))
             = Some (title (data (GetSortednotes True ex_store ! (1 - 1))))"
    using L h1 by blast
  have b: "prevSlug (data (GetSortednotes True ex_store ! 1))
             = Some (entry_slug (GetSortednotes True ex_store ! (1 + 1)))
         \<and> prevTitle (data (GetSortednotes True ex_store ! 1))
             = Some (title (data (GetSortednotes True ex_store ! (1 + 1))))"
    using L h2 by blast
  have c: "nextSlug (data (GetSortednotes True ex_store ! 0)) = None
         \<and> prevSlug (data (GetSortednotes True ex_store
               ! (length (GetSortednotes True ex_store) - 1))) = None"
    using L h3 h4 by blast
  have v: "entry_slug (GetSortednotes True ex_store ! (1 - 1)) = Some ''b''"
    "title (data (GetSortednotes True ex_store ! (1 - 1))) = ''B''"
    "entry_slug (GetSortednotes True ex_store ! (1 + 1)) = Some ''c''"
    "title (data (GetSortednotes True ex_store ! (1 + 1))) = ''C''"
    unfolding ex_GetSortednotes_True by (simp_all add: ex_defs)
  show ?thesis using h1 a b c unfolding l v by simp
qed

text \<open>
  Claim C4, as stated: the first element carries no prev fields and the last element no
  next fields.  On the example store the first element B carries the prev fields (they
  point at A) and the last element C carries the next fields.
\<close>

theorem first_prev_last_next_counterexample:
  "\<not> (prevSlug (data (hd (GetSortednotes True ex_store))) = None
      \<and> prevTitle (data (hd (GetSortednotes True ex_store))) = None
      \<and> nextSlug (data (last (GetSortednotes True ex_store))) = None
      \<and> nextTitle (data (last (GetSortednotes True ex_store))) = None)"
  unfolding ex_GetSortednotes_True by simp

text \<open>
  Claim C4, amended: for documents that arrive without link fields, the first element of
  the sequence carries no next fields and the last element carries no prev fields.
\<close>

theorem first_next_last_prev_absent:
  assumes "\<forall>e \<in> set store. nextSlug (data e) = None \<and> nextTitle (data e) = None
                            \<and> prevSlug (data e) = None \<and> prevTitle (data e) = None"
    and "GetSortednotes env_PROD store \<noteq> []"
  shows "nextSlug (data (hd (GetSortednotes env_PROD store))) = None
       \<and> nextTitle (data (hd (GetSortednotes env_PROD store))) = None
       \<and> prevSlug (data (last (GetSortednotes env_PROD store))) = None
       \<and> prevTitle (data (last (GetSortednotes env_PROD store))) = None"
  using GetSortednotes_ends[OF assms] assms(2)
  by (simp add: hd_conv_nth last_conv_nth)

text \<open>On the example store outside production (no document of it has link fields).\<close>

theorem first_next_last_prev_absent_witness:
  "GetSortednotes False ex_store \<noteq> []
   \<and> nextSlug (data (hd (GetSortednotes False ex_store))) = None
   \<and> nextTitle (data (hd (GetSortednotes False ex_store))) = None
   \<and> prevSlug (data (last (GetSortednotes False ex_store))) = None
   \<and> prevTitle (data (last (GetSortednotes False ex_store))) = None"
proof -
  have h1: "\<forall>e \<in> set ex_store. nextSlug (data e) = None \<and> nextTitle (data e) = None
                            \<and> prevSlug (data e) = None \<and> prevTitle (data e) = None"
    by (simp add: ex_defs)
  have "length (GetSortednotes False ex_store) = 4"
    by (simp add: GetSortednotes_def stitched_length length_Array_sort getCollection_def
        draftFilter_def ex_store_def)
  then have h2: "GetSortednotes False ex_store \<noteq> []" by auto
  show ?thesis using h2 first_next_last_prev_absent[OF h1 h2] by blast
qed

section \<open>Building insertion-ordered maps\<close>

lemma update_absent: "map_of al k = None \<Longrightarrow> AList.update k v al = al @ [(k, v)]"
  by (induction al) (auto split: if_splits)

lemma new_Map_distinct:
  "distinct (map fst (acc @ xs)) \<Longrightarrow> foldl (\<lambda>m (k, v). Map_set k v m) acc xs = acc @ xs"
proof (induction xs arbitrary: acc)
  case Nil
  then show ?case by simp
next
  case (Cons p xs)
  obtain k v where p: "p = (k, v)" by (cases p)
  have "map_of acc k = None"
    using Cons.prems by (auto simp: p map_of_eq_None_iff)
  then have u: "Map_set k v acc = acc @ [(k, v)]"
    by (simp add: Map_set_def update_absent)
  have "distinct (map fst ((acc @ [(k, v)]) @ xs))" using Cons.prems by (simp add: p)
  from Cons.IH[OF this] show ?case by (simp add: p u)
qed

lemma new_Map_id: "distinct (map fst xs) \<Longrightarrow> new_Map xs = xs"
  using new_Map_distinct[of "[]" xs] by (simp add: new_Map_def)

lemma strictly_descending:
  fixes xs :: "int list"
  shows "sorted_wrt (\<lambda>a b. b \<le> a) xs \<Longrightarrow> distinct xs \<Longrightarrow> sorted_wrt (\<lambda>a b. b < a) xs"
  by (induction xs) (auto simp: less_le)

section \<open>The year index\<close>

lemma GetNotes_step_Inr:
  "GetNotes_step gy f m e =
     Inr (AList.update (gy (published (data e)))
            ((case map_of m (gy (published (data e))) of None \<Rightarrow> [] | Some arr \<Rightarrow> arr)
               @ [note_item f e]) m)"
  by (simp add: GetNotes_step_def Let_def Map_has_def Map_get_def Map_set_def update_conv'
      split: option.splits)

lemma GetNotes_loop_Inr:
  assumes "distinct (map fst m)"
    and "\<forall>y. map_of m y =
          (if filter (\<lambda>e. gy (published (data e)) = y) pre = [] then None
           else Some (map (note_item f) (filter (\<lambda>e. gy (published (data e)) = y) pre)))"
  shows "\<exists>m'. GetNotes_loop gy f xs m = Inr m' \<and> distinct (map fst m')
    \<and> (\<forall>y. map_of m' y =
          (if filter (\<lambda>e. gy (published (data e)) = y) (pre @ xs) = [] then None
           else Some (map (note_item f) (filter (\<lambda>e. gy (published (data e)) = y) (pre @ xs)))))"
  using assms
proof (induction xs arbitrary: m pre)
  case Nil
  then show ?case by simp
next
  case (Cons x xs)
  define k where "k = gy (published (data x))"
  define m1 where "m1 = AList.update k
      ((case map_of m k of None \<Rightarrow> [] | Some arr \<Rightarrow> arr) @ [note_item f x]) m"
  have st: "GetNotes_step gy f m x = Inr m1"
    by (simp add: GetNotes_step_Inr m1_def k_def)
  have d: "distinct (map fst m1)"
    using Cons.prems(1) by (simp add: m1_def distinct_update)
  have mo: "\<forall>y. map_of m1 y =
          (if filter (\<lambda>e. gy (published (data e)) = y) (pre @ [x]) = [] then None
           else Some (map (note_item f) (filter (\<lambda>e. gy (published (data e)) = y) (pre @ [x]))))"
    using Cons.prems(2) by (auto simp: m1_def update_conv' k_def)
  from Cons.IH[OF d mo, unfolded append_assoc append_Cons append_Nil]
  obtain m' where "GetNotes_loop gy f xs m1 = Inr m'" and "distinct (map fst m')"
    and "\<forall>y. map_of m' y =
          (if filter (\<lambda>e. gy (published (data e)) = y) (pre @ x # xs) = [] then None
           else Some (map (note_item f) (filter (\<lambda>e. gy (published (data e)) = y) (pre @ x # xs))))"
    by blast
  moreover have "GetNotes_loop gy f (x # xs) m = GetNotes_loop gy f xs m1"
    by (simp add: st)
  ultimately show ?case by metis
qed

lemma GetNotes_built:
  "\<exists>m. GetNotes_loop gy f docs [] = Inr m \<and> distinct (map fst m)
    \<and> (\<forall>y. map_of m y =
          (if filter (\<lambda>e. gy (published (data e)) = y) docs = [] then None
           else Some (map (note_item f) (filter (\<lambda>e. gy (published (data e)) = y) docs))))"
proof -
  have a: "distinct (map fst ([] :: (int \<times> Notes list) list))" by simp
  have b: "\<forall>y. map_of ([] :: (int \<times> Notes list) list) y =
          (if filter (\<lambda>e. gy (published (data e)) = y) [] = [] then None
           else Some (map (note_item f) (filter (\<lambda>e. gy (published (data e)) = y) [])))"
    by simp
  from GetNotes_loop_Inr[OF a b] show ?thesis unfolding append_Nil .
qed


lemma GetNotes_result:
  fixes gy f env_PROD store
  defines "docs \<equiv> getCollection store (draftFilter env_PROD)"
  shows "\<exists>m. GetNotes gy f env_PROD store = Inr m
    \<and> sorted_wrt (\<lambda>a b. b < a) (map fst m)
    \<and> fst ` set m = (\<lambda>e. gy (published (data e))) ` set docs
    \<and> (\<forall>y b. (y, b) \<in> set m \<longrightarrow>
          b = Array_sort compare_date
                (map (note_item f) (filter (\<lambda>e. gy (published (data e)) = y) docs)))"
proof -
  obtain m0 where lp: "GetNotes_loop gy f docs [] = Inr m0" and d0: "distinct (map fst m0)"
    and mo: "\<forall>y. map_of m0 y =
          (if filter (\<lambda>e. gy (published (data e)) = y) docs = [] then None
           else Some (map (note_item f) (filter (\<lambda>e. gy (published (data e)) = y) docs)))"
    using GetNotes_built[of gy f docs] by blast
  define es where "es = Array_sort compare_year m0"
  define R where "R = map (\<lambda>(year, value). (year, Array_sort compare_date value)) es"
  have ms: "mset es = mset m0" by (simp add: es_def mset_Array_sort)
  then have "mset (map fst es) = mset (map fst m0)" by simp
  then have de: "distinct (map fst es)" using d0 by (metis mset_eq_imp_distinct_iff)
  have nm: "new_Map es = es" using de by (rule new_Map_id)
  have res: "GetNotes gy f env_PROD store = Inr R"
    by (simp add: GetNotes_def docs_def[symmetric] lp es_def[symmetric] nm R_def)
  have keys: "map fst R = map fst es"
    by (simp add: R_def case_prod_beta comp_def)
  have "sorted_wrt (\<lambda>a b. fst b \<le> fst a) es"
    unfolding es_def by (rule sorted_Array_sort[where k = fst]) (rule compare_year_neg)
  then have "sorted_wrt (\<lambda>a b. b \<le> a) (map fst es)" by (simp add: sorted_wrt_map)
  then have s1: "sorted_wrt (\<lambda>a b. b < a) (map fst R)"
    unfolding keys using de by (rule strictly_descending)
  have "fst ` set R = fst ` set m0"
    using keys ms by (metis list.set_map set_mset_mset)
  also have "\<dots> = dom (map_of m0)" by (simp add: dom_map_of_conv_image_fst)
  also have "\<dots> = (\<lambda>e. gy (published (data e))) ` set docs"
    using mo by (auto simp: dom_def filter_empty_conv)
  finally have s2: "fst ` set R = (\<lambda>e. gy (published (data e))) ` set docs" .
  have s3: "b = Array_sort compare_date
                (map (note_item f) (filter (\<lambda>e. gy (published (data e)) = y) docs))"
    if "(y, b) \<in> set R" for y b
  proof -
    from that obtain v where v: "(y, v) \<in> set es" and b: "b = Array_sort compare_date v"
      by (auto simp: R_def)
    have "(y, v) \<in> set m0" using v ms by (metis set_mset_mset)
    then have "map_of m0 y = Some v" using d0 by simp
    then have "v = map (note_item f) (filter (\<lambda>e. gy (published (data e)) = y) docs)"
      using mo by (auto split: if_splits)
    then show ?thesis using b by simp
  qed
  show ?thesis using res s1 s2 s3 by blast
qed


section \<open>Stability of the sorts\<close>

lemma without_links_stitched:
  "map without_links (link_prev 0 (link_next (Suc 0) s)) = map without_links s"
proof (rule nth_equalityI)
  show "length (map without_links (link_prev 0 (link_next (Suc 0) s)))
      = length (map without_links s)"
    by (simp add: stitched_length)
next
  fix i assume "i < length (map without_links (link_prev 0 (link_next (Suc 0) s)))"
  then have i: "i < length s" by (simp add: stitched_length)
  then have "without_links (link_prev 0 (link_next (Suc 0) s) ! i) = without_links (s ! i)"
    by (simp add: stitched_nth Let_def without_links_def)
  then show "map without_links (link_prev 0 (link_next (Suc 0) s)) ! i
      = map without_links s ! i"
    using i by (simp add: stitched_length)
qed

lemma published_without_links: "published (data (without_links e)) = published (data e)"
  by (simp add: without_links_def)

lemma stable_published:
  "filter (\<lambda>e. published (data e) = d) (Array_sort compare_published xs)
     = filter (\<lambda>e. published (data e) = d) xs"
  by (rule stable_Array_sort[where k = "\<lambda>e. published (data e)"]) (rule compare_published_neg)

lemma stable_date:
  "filter (\<lambda>n. Notes_date n = d) (Array_sort compare_date xs)
     = filter (\<lambda>n. Notes_date n = d) xs"
  by (rule stable_Array_sort[where k = Notes_date]) (rule compare_date_neg)

lemma sorted_date:
  "sorted_wrt (\<lambda>a b. Notes_date b \<le> Notes_date a) (Array_sort compare_date xs)"
  by (rule sorted_Array_sort[where k = Notes_date]) (rule compare_date_neg)

lemma filter_without_links:
  "map without_links (filter (\<lambda>e. published (data e) = d) xs)
     = filter (\<lambda>e. published (data e) = d) (map without_links xs)"
  by (simp add: filter_map comp_def published_without_links)

lemma stable_GetSortednotes:
  "map without_links (filter (\<lambda>e. published (data e) = d) (GetSortednotes env_PROD store))
     = map without_links
         (filter (\<lambda>e. published (data e) = d) (getCollection store (draftFilter env_PROD)))"
proof -
  define docs where "docs = getCollection store (draftFilter env_PROD)"
  have "map without_links (filter (\<lambda>e. published (data e) = d) (GetSortednotes env_PROD store))
      = filter (\<lambda>e. published (data e) = d)
          (map without_links (Array_sort compare_published docs))"
    by (simp add: GetSortednotes_def docs_def filter_without_links without_links_stitched)
  also have "\<dots> = map without_links
      (filter (\<lambda>e. published (data e) = d) (Array_sort compare_published docs))"
    by (simp add: filter_without_links)
  finally show ?thesis by (simp add: stable_published docs_def)
qed

lemma note_item_date: "Notes_date (note_item f e) = published (data e)"
  by (simp add: note_item_def)

lemma ex_GetNotes_False:
  "GetNotes ex_getFullYear ex_IdToSlug False ex_store =
     Inr [(2024, [note_item ex_IdToSlug ex_B, note_item ex_IdToSlug ex_A,
                  note_item ex_IdToSlug ex_D]),
          (2023, [note_item ex_IdToSlug ex_C])]"
  by (simp add: GetNotes_def getCollection_def draftFilter_def ex_defs GetNotes_step_def
      Map_has_def Map_get_def Map_set_def new_Map_def Array_sort_def compare_year_def
      compare_date_def note_item_def ex_getFullYear_def)


lemma ex_docs_False: "getCollection ex_store (draftFilter False) = [ex_A, ex_B, ex_C, ex_D]"
  by (simp add: getCollection_def draftFilter_def ex_store_def)

text \<open>
  Claim C5.  Every sort of the program keeps documents of equal publication date in their
  source order: for each date, the elements of that date stand in the chronological
  sequence of \<^verbatim>\<open>getSortedNotes\<close> and of \<^verbatim>\<open>GetSortednotes\<close> (link fields aside), and in
  each year bucket of \<^verbatim>\<open>GetNotes\<close>, in the order in which the filtered set holds them.
\<close>

theorem sorts_stable:
  fixes gy f env_PROD store
  defines "docs \<equiv> getCollection store (draftFilter env_PROD)"
  shows "(\<forall>d. filter (\<lambda>e. published (data e) = d) (getSortedNotes env_PROD store)
               = filter (\<lambda>e. published (data e) = d) docs)
    \<and> (\<forall>d. map without_links
               (filter (\<lambda>e. published (data e) = d) (GetSortednotes env_PROD store))
               = map without_links (filter (\<lambda>e. published (data e) = d) docs))
    \<and> (\<exists>m. GetNotes gy f env_PROD store = Inr m
         \<and> (\<forall>(y, es) \<in> set m. \<forall>d.
               filter (\<lambda>n. Notes_date n = d) es
               = map (note_item f)
                   (filter (\<lambda>e. gy (published (data e)) = y \<and> published (data e) = d) docs)))"
proof -
  have a: "\<forall>d. filter (\<lambda>e. published (data e) = d) (getSortedNotes env_PROD store)
               = filter (\<lambda>e. published (data e) = d) docs"
    by (simp add: getSortedNotes_def docs_def stable_published)
  have b: "\<forall>d. map without_links
               (filter (\<lambda>e. published (data e) = d) (GetSortednotes env_PROD store))
               = map without_links (filter (\<lambda>e. published (data e) = d) docs)"
    by (simp add: stable_GetSortednotes docs_def)
  obtain m where m: "GetNotes gy f env_PROD store = Inr m"
    and bk: "\<forall>y b. (y, b) \<in> set m \<longrightarrow>
          b = Array_sort compare_date
                (map (note_item f) (filter (\<lambda>e. gy (published (data e)) = y) docs))"
    using GetNotes_result[of gy f env_PROD store] unfolding docs_def by blast
  have "filter (\<lambda>n. Notes_date n = d) es
      = map (note_item f)
          (filter (\<lambda>e. gy (published (data e)) = y \<and> published (data e) = d) docs)"
    if "(y, es) \<in> set m" for y es d
  proof -
    have "es = Array_sort compare_date
                (map (note_item f) (filter (\<lambda>e. gy (published (data e)) = y) docs))"
      using bk that by blast
    then show ?thesis
      by (simp add: stable_date filter_map comp_def note_item_date)
  qed
  then have c: "\<forall>(y, es) \<in> set m. \<forall>d.
               filter (\<lambda>n. Notes_date n = d) es
               = map (note_item f)
                   (filter (\<lambda>e. gy (published (data e)) = y \<and> published (data e) = d) docs)"
    by blast
  show ?thesis using a b m c by blast
qed

text \<open>
  On the example store outside production, where A and the draft D share a date and A
  comes first in the store.
\<close>

theorem sorts_stable_witness:
  "filter (\<lambda>e. published (data e) = 1704844800000) (getSortedNotes False ex_store)
     = [ex_A, ex_D]
   \<and> map without_links
       (filter (\<lambda>e. published (data e) = 1704844800000) (GetSortednotes False ex_store))
     = [ex_A, ex_D]
   \<and> (\<exists>m. GetNotes ex_getFullYear ex_IdToSlug False ex_store = Inr m
        \<and> filter (\<lambda>n. Notes_date n = 1704844800000) (snd (m ! 0))
          = [note_item ex_IdToSlug ex_A, note_item ex_IdToSlug ex_D])"
proof -
  note T = sorts_stable[where env_PROD = False and store = ex_store
      and gy = ex_getFullYear and f = ex_IdToSlug, unfolded ex_docs_False]
  have a: "filter (\<lambda>e. published (data e) = 1704844800000) (getSortedNotes False ex_store)
     = filter (\<lambda>e. published (data e) = 1704844800000) [ex_A, ex_B, ex_C, ex_D]"
    using T by blast
  have b: "map without_links
       (filter (\<lambda>e. published (data e) = 1704844800000) (GetSortednotes False ex_store))
     = map without_links
         (filter (\<lambda>e. published (data e) = 1704844800000) [ex_A, ex_B, ex_C, ex_D])"
    using T by blast
  obtain m where m: "GetNotes ex_getFullYear ex_IdToSlug False ex_store = Inr m"
    and c: "\<forall>(y, es) \<in> set m. \<forall>d.
               filter (\<lambda>n. Notes_date n = d) es
               = map (note_item ex_IdToSlug)
                   (filter (\<lambda>e. ex_getFullYear (published (data e)) = y
                      \<and> published (data e) = d) [ex_A, ex_B, ex_C, ex_D])"
    using T by blast
  have "Inr [(2024, [note_item ex_IdToSlug ex_B, note_item ex_IdToSlug ex_A,
                  note_item ex_IdToSlug ex_D]),
          (2023, [note_item ex_IdToSlug ex_C])] = (Inr m :: error + (int, Notes list) JSMap)"
    using m by (simp only: ex_GetNotes_False)
  then have v: "m = [(2024, [note_item ex_IdToSlug ex_B, note_item ex_IdToSlug ex_A,
                  note_item ex_IdToSlug ex_D]),
          (2023, [note_item ex_IdToSlug ex_C])]"
    by simp
  have "(2024, snd (m ! 0)) \<in> set m" by (simp add: v)
  then have "filter (\<lambda>n. Notes_date n = 1704844800000) (snd (m ! 0))
               = map (note_item ex_IdToSlug)
                   (filter (\<lambda>e. ex_getFullYear (published (data e)) = 2024
                      \<and> published (data e) = 1704844800000) [ex_A, ex_B, ex_C, ex_D])"
    using c by blast
  then have c': "filter (\<lambda>n. Notes_date n = 1704844800000) (snd (m ! 0))
          = [note_item ex_IdToSlug ex_A, note_item ex_IdToSlug ex_D]"
    by (simp add: ex_defs ex_getFullYear_def)
  have a': "filter (\<lambda>e. published (data e) = 1704844800000) (getSortedNotes False ex_store)
     = [ex_A, ex_D]"
    using a by (simp add: ex_defs)
  have b': "map without_links
       (filter (\<lambda>e. published (data e) = 1704844800000) (GetSortednotes False ex_store))
     = [ex_A, ex_D]"
    using b by (simp add: ex_defs without_links_def)
  have "\<exists>m. GetNotes ex_getFullYear ex_IdToSlug False ex_store = Inr m
        \<and> filter (\<lambda>n. Notes_date n = 1704844800000) (snd (m ! 0))
          = [note_item ex_IdToSlug ex_A, note_item ex_IdToSlug ex_D]"
    by (rule exI[of _ m]) (rule conjI m c')+
  then show ?thesis by (rule conjI[OF a' conjI[OF b']])
qed

section \<open>Year index: keys and buckets\<close>

text \<open>
  Claim C6.  The map returned by \<^verbatim>\<open>GetNotes\<close> has as keys exactly the publication years of
  the filtered set, its keys iterate in strictly descending order, and every year bucket
  holds the entries of the documents of that year, sorted non-increasing by date.
\<close>

theorem GetNotes_year_index:
  fixes gy f env_PROD store
  defines "docs \<equiv> getCollection store (draftFilter env_PROD)"
  shows "\<exists>m. GetNotes gy f env_PROD store = Inr m
    \<and> set (map fst m) = (\<lambda>e. gy (published (data e))) ` set docs
    \<and> sorted_wrt (\<lambda>a b. b < a) (map fst m)
    \<and> (\<forall>(y, es) \<in> set m.
          sorted_wrt (\<lambda>a b. Notes_date b \<le> Notes_date a) es
        \<and> mset es
            = mset (map (note_item f) (filter (\<lambda>e. gy (published (data e)) = y) docs)))"
proof -
  obtain m where m: "GetNotes gy f env_PROD store = Inr m"
    and s1: "sorted_wrt (\<lambda>a b. b < a) (map fst m)"
    and s2: "fst ` set m = (\<lambda>e. gy (published (data e))) ` set docs"
    and bk: "\<forall>y b. (y, b) \<in> set m \<longrightarrow>
          b = Array_sort compare_date
                (map (note_item f) (filter (\<lambda>e. gy (published (data e)) = y) docs))"
    using GetNotes_result[of gy f env_PROD store] unfolding docs_def by blast
  have "sorted_wrt (\<lambda>a b. Notes_date b \<le> Notes_date a) es
        \<and> mset es
            = mset (map (note_item f) (filter (\<lambda>e. gy (published (data e)) = y) docs))"
    if "(y, es) \<in> set m" for y es
  proof -
    have "es = Array_sort compare_date
                (map (note_item f) (filter (\<lambda>e. gy (published (data e)) = y) docs))"
      using bk that by blast
    then show ?thesis using sorted_date mset_Array_sort by metis
  qed
  then have c: "\<forall>(y, es) \<in> set m.
          sorted_wrt (\<lambda>a b. Notes_date b \<le> Notes_date a) es
        \<and> mset es
            = mset (map (note_item f) (filter (\<lambda>e. gy (published (data e)) = y) docs))"
    by blast
  have k: "set (map fst m) = (\<lambda>e. gy (published (data e))) ` set docs"
    using s2 by simp
  show ?thesis using m k s1 c by blast
qed

text \<open>On the example store outside production: the years, and the titles of each bucket.\<close>

theorem GetNotes_year_index_witness:
  "\<exists>m. GetNotes ex_getFullYear ex_IdToSlug False ex_store = Inr m
     \<and> map fst m = [2024, 2023]
     \<and> map (\<lambda>(y, es). map Notes_title es) m = [[''B'', ''A'', ''D''], [''C'']]
     \<and> sorted_wrt (\<lambda>a b. b < a) (map fst m)
     \<and> sorted_wrt (\<lambda>a b. Notes_date b \<le> Notes_date a) (snd (m ! 0))"
proof -
  obtain m where m: "GetNotes ex_getFullYear ex_IdToSlug False ex_store = Inr m"
    and k: "sorted_wrt (\<lambda>a b. b < a) (map fst m)"
    and c: "\<forall>(y, es) \<in> set m.
          sorted_wrt (\<lambda>a b. Notes_date b \<le> Notes_date a) es
        \<and> mset es
            = mset (map (note_item ex_IdToSlug)
                (filter (\<lambda>e. ex_getFullYear (published (data e)) = y)
                   (getCollection ex_store (draftFilter False))))"
    using GetNotes_year_index[where env_PROD = False and store = ex_store
      and gy = ex_getFullYear and f = ex_IdToSlug] by blast
  have "Inr [(2024, [note_item ex_IdToSlug ex_B, note_item ex_IdToSlug ex_A,
                  note_item ex_IdToSlug ex_D]),
          (2023, [note_item ex_IdToSlug ex_C])] = (Inr m :: error + (int, Notes list) JSMap)"
    using m by (simp only: ex_GetNotes_False)
  then have v: "m = [(2024, [note_item ex_IdToSlug ex_B, note_item ex_IdToSlug ex_A,
                  note_item ex_IdToSlug ex_D]),
          (2023, [note_item ex_IdToSlug ex_C])]"
    by simp
  have "(2024, snd (m ! 0)) \<in> set m" by (simp add: v)
  then have s: "sorted_wrt (\<lambda>a b. Notes_date b \<le> Notes_date a) (snd (m ! 0))"
    using c by blast
  have t: "map fst m = [2024, 2023]"
    "map (\<lambda>(y, es). map Notes_title es) m = [[''B'', ''A'', ''D''], [''C'']]"
    by (simp_all add: v note_item_def ex_defs)
  show ?thesis by (rule exI[of _ m]) (rule conjI m k s t)+
qed

section \<open>Tag and category indexes\<close>

lemma GetTags_step_Inr:
  "GetTags_step f note m tag = Inr (index_add ''/tags/'' f m (tag, note))"
proof (cases "map_of m (f tag)")
  case None
  then have "GetTags_step f note m tag =
      Inr (AList.update (f tag)
             \<lparr>Tag_name = tag, Tag_slug = ''/tags/'' @ f tag,
              Tag_notes = [note_item f note]\<rparr> m)"
    by (simp add: GetTags_step_def Let_def Map_has_def Map_get_def Map_set_def update_conv')
  then show ?thesis using None by (simp add: index_add_def update_absent)
next
  case (Some t)
  then show ?thesis
    by (simp add: GetTags_step_def index_add_def Let_def Map_has_def Map_get_def Map_set_def)
qed

lemma GetCategories_step_Inr:
  "GetCategories_step f m note =
     Inr (foldl (index_add ''/categories/'' f) m (category_pairs [note]))"
proof (cases "category (data note)")
  case None
  then show ?thesis by (simp add: GetCategories_step_def category_pairs_def)
next
  case (Some c)
  show ?thesis
  proof (cases "c = []")
    case True
    then show ?thesis using Some by (simp add: GetCategories_step_def category_pairs_def)
  next
    case False
    have p: "category_pairs [note] = [(c, note)]"
      using Some False by (simp add: category_pairs_def)
    show ?thesis
    proof (cases "map_of m (f c)")
      case None
      then have "GetCategories_step f m note =
          Inr (AList.update (f c)
                 \<lparr>Tag_name = c, Tag_slug = ''/categories/'' @ f c,
                  Tag_notes = [note_item f note]\<rparr> m)"
        using Some False
        by (simp add: GetCategories_step_def Let_def Map_has_def Map_get_def Map_set_def
            update_conv')
      then show ?thesis using None by (simp add: p index_add_def update_absent)
    next
      case (Some t)
      then show ?thesis using \<open>category (data note) = Some c\<close> False
        by (simp add: p GetCategories_step_def index_add_def Let_def Map_has_def Map_get_def
            Map_set_def)
    qed
  qed
qed

lemma GetTags_inner_Inr:
  "GetTags_inner f note ts m = Inr (foldl (index_add ''/tags/'' f) m (map (\<lambda>t. (t, note)) ts))"
  by (induction ts arbitrary: m) (simp_all add: GetTags_step_Inr)

lemma GetTags_outer_Inr:
  "GetTags_outer f docs m = Inr (foldl (index_add ''/tags/'' f) m (tag_pairs docs))"
  by (induction docs arbitrary: m)
    (simp_all add: tag_pairs_def GetTags_inner_Inr split: option.splits)

lemma GetCategories_loop_Inr:
  "GetCategories_loop f docs m = Inr (foldl (index_add ''/categories/'' f) m (category_pairs docs))"
proof (induction docs arbitrary: m)
  case Nil
  then show ?case by (simp add: category_pairs_def)
next
  case (Cons d docs)
  have "category_pairs (d # docs) = category_pairs [d] @ category_pairs docs"
    by (simp add: category_pairs_def)
  then show ?case by (simp add: GetCategories_step_Inr Cons)
qed

lemma index_record_snoc:
  "index_record path f (ps @ [p]) s =
     (if f (fst p) = s
      then (case index_record path f ps s of
              None \<Rightarrow> Some \<lparr>Tag_name = fst p, Tag_slug = path @ s,
                            Tag_notes = [note_item f (snd p)]\<rparr>
            | Some t \<Rightarrow> Some (t\<lparr>Tag_notes := Tag_notes t @ [note_item f (snd p)]\<rparr>))
      else index_record path f ps s)"
  by (cases p) (auto simp: index_record_def split: list.splits)

lemma index_add_inv:
  assumes "distinct (map fst m)" and "\<forall>s. map_of m s = index_record path f ps s"
  shows "distinct (map fst (index_add path f m p))
       \<and> (\<forall>s. map_of (index_add path f m p) s = index_record path f (ps @ [p]) s)"
proof (cases "map_of m (f (fst p))")
  case None
  then have "index_add path f m p = AList.update (f (fst p))
      \<lparr>Tag_name = fst p, Tag_slug = path @ f (fst p),
       Tag_notes = [note_item f (snd p)]\<rparr> m"
    by (simp add: index_add_def update_absent)
  then show ?thesis using assms None
    by (auto simp: index_record_snoc update_conv' distinct_update split: option.splits)
next
  case (Some t)
  then show ?thesis using assms
    by (auto simp: index_add_def index_record_snoc update_conv' distinct_update
        split: option.splits)
qed

lemma index_foldl_inv:
  assumes "distinct (map fst m)" and "\<forall>s. map_of m s = index_record path f ps s"
  shows "distinct (map fst (foldl (index_add path f) m qs))
       \<and> (\<forall>s. map_of (foldl (index_add path f) m qs) s = index_record path f (ps @ qs) s)"
  using assms
proof (induction qs arbitrary: m ps)
  case Nil
  then show ?case by simp
next
  case (Cons q qs)
  from index_add_inv[OF Cons.prems, of q] Cons.IH[of "index_add path f m q" "ps @ [q]"]
  show ?case by simp
qed

lemma index_built:
  "distinct (map fst (foldl (index_add path f) [] qs))
   \<and> (\<forall>s. map_of (foldl (index_add path f) [] qs) s = index_record path f qs s)"
  using index_foldl_inv[of "[]" path f "[]" qs] by (simp add: index_record_def)


lemma GetTags_Inr:
  "GetTags f env_PROD store =
     Inr (foldl (index_add ''/tags/'' f) []
            (tag_pairs (getCollection store (draftFilter env_PROD))))"
  by (simp add: GetTags_def GetTags_outer_Inr)

lemma GetCategories_Inr:
  "GetCategories f env_PROD store =
     Inr (foldl (index_add ''/categories/'' f) []
            (category_pairs (getCollection store (draftFilter env_PROD))))"
  by (simp add: GetCategories_def GetCategories_loop_Inr)

lemma index_record_name:
  assumes "index_record path f ps s = Some t"
  shows "Tag_slug t = path @ s \<and> f (Tag_name t) = s
       \<and> Tag_notes t = map (\<lambda>p. note_item f (snd p)) (filter (\<lambda>p. f (fst p) = s) ps)"
proof -
  from assms obtain n0 d0 rest where
    fl: "filter (\<lambda>(n, d). f n = s) ps = (n0, d0) # rest"
    and t: "t = \<lparr>Tag_name = n0, Tag_slug = path @ s,
                Tag_notes = map (\<lambda>(n, d). note_item f d) ((n0, d0) # rest)\<rparr>"
    by (auto simp: index_record_def split: list.splits)
  have "(n0, d0) \<in> set (filter (\<lambda>(n, d). f n = s) ps)" by (simp add: fl)
  then have "f n0 = s" by simp
  moreover have "Tag_notes t = map (\<lambda>p. note_item f (snd p)) (filter (\<lambda>p. f (fst p) = s) ps)"
    using fl by (simp add: t split_def)
  ultimately show ?thesis by (simp add: t)
qed

lemma index_record_None:
  "index_record path f ps s = None \<longleftrightarrow> filter (\<lambda>p. f (fst p) = s) ps = []"
  by (auto simp: index_record_def split_def split: list.splits)

lemma index_keys:
  assumes "\<forall>s. map_of m s = index_record path f ps s"
  shows "set (map fst m) = f ` fst ` set ps"
proof -
  have "set (map fst m) = dom (map_of m)" by (simp add: dom_map_of_conv_image_fst)
  also have "\<dots> = {s. filter (\<lambda>p. f (fst p) = s) ps \<noteq> []}"
    using assms by (auto simp: dom_def index_record_None)
  also have "\<dots> = f ` fst ` set ps"
    by (auto simp: filter_empty_conv)
  finally show ?thesis .
qed

lemma update_total:
  fixes g :: "'k \<times> 'v \<Rightarrow> nat"
  shows "map_of m k = Some t \<Longrightarrow>
    sum_list (map g (AList.update k t' m)) + g (k, t) = sum_list (map g m) + g (k, t')"
  by (induction m) (auto split: if_splits)

lemma index_add_total:
  "sum_list (map (\<lambda>(s, t). length (Tag_notes t)) (index_add path f m p))
     = sum_list (map (\<lambda>(s, t). length (Tag_notes t)) m) + 1"
proof (cases "map_of m (f (fst p))")
  case None
  then show ?thesis by (simp add: index_add_def)
next
  case (Some t)
  from update_total[OF Some, of "\<lambda>(s, t). length (Tag_notes t)"
      "t\<lparr>Tag_notes := Tag_notes t @ [note_item f (snd p)]\<rparr>"]
  show ?thesis using Some by (simp add: index_add_def)
qed

lemma index_foldl_total:
  "sum_list (map (\<lambda>(s, t). length (Tag_notes t)) (foldl (index_add path f) m qs))
     = sum_list (map (\<lambda>(s, t). length (Tag_notes t)) m) + length qs"
  by (induction qs arbitrary: m) (simp_all add: index_add_total)

lemma length_tag_pairs:
  "length (tag_pairs docs)
     = sum_list (map (\<lambda>d. case tags (data d) of None \<Rightarrow> 0 | Some ts \<Rightarrow> length ts) docs)"
  by (induction docs) (simp_all add: tag_pairs_def split: option.splits)

lemma category_pairs_filter:
  "map snd (filter (\<lambda>p. f (fst p) = s) (category_pairs docs))
     = filter (\<lambda>d. case category (data d) of None \<Rightarrow> False | Some c \<Rightarrow> c \<noteq> [] \<and> f c = s) docs"
  by (induction docs) (simp_all add: category_pairs_def split: option.splits)

lemma length_category_pairs:
  "length (category_pairs docs)
     = length (filter (\<lambda>d. case category (data d) of None \<Rightarrow> False | Some c \<Rightarrow> c \<noteq> []) docs)"
  by (induction docs) (simp_all add: category_pairs_def split: option.splits)


lemma ex_GetTags_False:
  "GetTags ex_IdToSlug False ex_store =
     Inr [(''t1'', \<lparr>Tag_name = ''t1'', Tag_slug = ''/tags/t1'',
                    Tag_notes = [note_item ex_IdToSlug ex_A, note_item ex_IdToSlug ex_B]\<rparr>),
          (''t2'', \<lparr>Tag_name = ''t2'', Tag_slug = ''/tags/t2'',
                    Tag_notes = [note_item ex_IdToSlug ex_A, note_item ex_IdToSlug ex_D]\<rparr>)]"
  unfolding GetTags_Inr ex_docs_False
  by (simp add: tag_pairs_def index_add_def ex_defs ex_IdToSlug_def)

lemma ex_GetCategories_False:
  "GetCategories ex_IdToSlug False ex_store =
     Inr [(''tech'', \<lparr>Tag_name = ''Tech'', Tag_slug = ''/categories/tech'',
                    Tag_notes = [note_item ex_IdToSlug ex_A, note_item ex_IdToSlug ex_B]\<rparr>)]"
  unfolding GetCategories_Inr ex_docs_False
  by (simp add: category_pairs_def index_add_def ex_defs ex_IdToSlug_def)

section \<open>Tag index: number of entries\<close>

text \<open>
  Claim C7.  \<^verbatim>\<open>GetTags\<close> returns a map of Tag records, one per key, and the lengths of
  their \<^verbatim>\<open>notes\<close> lists add up to the number of (document, tag) pairs of the filtered set:
  the sum over the documents of the length of the tag list, 0 when \<^verbatim>\<open>tags\<close> is absent.
\<close>

theorem GetTags_entry_count:
  fixes f env_PROD store
  defines "docs \<equiv> getCollection store (draftFilter env_PROD)"
  shows "\<exists>m. GetTags f env_PROD store = Inr m \<and> distinct (map fst m)
    \<and> sum_list (map (\<lambda>(s, t). length (Tag_notes t)) m)
      = sum_list (map (\<lambda>d. case tags (data d) of None \<Rightarrow> 0 | Some ts \<Rightarrow> length ts) docs)"
proof -
  define m where "m = foldl (index_add ''/tags/'' f) [] (tag_pairs docs)"
  have r: "GetTags f env_PROD store = Inr m"
    by (simp add: GetTags_Inr m_def docs_def)
  have d: "distinct (map fst m)"
    unfolding m_def using index_built[of "''/tags/''" f "tag_pairs docs"] by blast
  have c: "sum_list (map (\<lambda>(s, t). length (Tag_notes t)) m)
      = sum_list (map (\<lambda>d. case tags (data d) of None \<Rightarrow> 0 | Some ts \<Rightarrow> length ts) docs)"
    by (simp add: m_def index_foldl_total length_tag_pairs)
  show ?thesis by (rule exI[of _ m]) (rule conjI r d c)+
qed

section \<open>Indexes are keyed by slug\<close>

text \<open>
  Claim C8.  The maps of \<^verbatim>\<open>GetTags\<close> and \<^verbatim>\<open>GetCategories\<close> are keyed by \<^verbatim>\<open>IdToSlug\<close> of
  the name: the keys are the slugs of the names met, each key holds one record, and the
  record under a slug has the spelling of the first name met with this slug and one
  entry for every (name, document) pair whose name has this slug, whatever its
  spelling, in the order met.
\<close>

theorem indexes_keyed_by_slug:
  fixes f env_PROD store
  defines "docs \<equiv> getCollection store (draftFilter env_PROD)"
  shows "(\<exists>m. GetTags f env_PROD store = Inr m
          \<and> distinct (map fst m)
          \<and> set (map fst m) = f ` fst ` set (tag_pairs docs)
          \<and> (\<forall>s. map_of m s = index_record ''/tags/'' f (tag_pairs docs) s))
       \<and> (\<exists>m. GetCategories f env_PROD store = Inr m
          \<and> distinct (map fst m)
          \<and> set (map fst m) = f ` fst ` set (category_pairs docs)
          \<and> (\<forall>s. map_of m s = index_record ''/categories/'' f (category_pairs docs) s))"
proof -
  have "\<exists>m. r = Inr m \<and> distinct (map fst m) \<and> set (map fst m) = f ` fst ` set ps
          \<and> (\<forall>s. map_of m s = index_record path f ps s)"
    if "r = Inr (foldl (index_add path f) [] ps)" for r :: "error + (string, Tag) JSMap"
      and path ps
  proof -
    define m where "m = foldl (index_add path f) [] ps"
    have b: "distinct (map fst m)" "\<forall>s. map_of m s = index_record path f ps s"
      unfolding m_def using index_built[of path f ps] by blast+
    have k: "set (map fst m) = f ` fst ` set ps" using b(2) by (rule index_keys)
    have r: "r = Inr m" using that by (simp add: m_def)
    show ?thesis by (rule exI[of _ m]) (rule conjI r b k)+
  qed
  from this[OF GetTags_Inr] this[OF GetCategories_Inr]
  show ?thesis unfolding docs_def by (rule conjI)
qed

text \<open>
  On the example store outside production: the tags \<open>t1\<close> of A and \<open>T1\<close> of B share the
  record under \<open>t1\<close>, named \<open>t1\<close>; the categories \<open>Tech\<close> of A and \<open>tech\<close> of B share the
  record under \<open>tech\<close>, named \<open>Tech\<close>; there is no key \<open>T1\<close> or \<open>Tech\<close>.
\<close>

theorem indexes_keyed_by_slug_witness:
  "(\<exists>m. GetTags ex_IdToSlug False ex_store = Inr m
      \<and> map_of m ''t1'' = Some \<lparr>Tag_name = ''t1'', Tag_slug = ''/tags/t1'',
            Tag_notes = [note_item ex_IdToSlug ex_A, note_item ex_IdToSlug ex_B]\<rparr>
      \<and> map_of m ''T1'' = None)
   \<and> (\<exists>m. GetCategories ex_IdToSlug False ex_store = Inr m
      \<and> map_of m ''tech'' = Some \<lparr>Tag_name = ''Tech'', Tag_slug = ''/categories/tech'',
            Tag_notes = [note_item ex_IdToSlug ex_A, note_item ex_IdToSlug ex_B]\<rparr>
      \<and> map_of m ''Tech'' = None)"
proof -
  note T = indexes_keyed_by_slug[of ex_IdToSlug False ex_store, unfolded ex_docs_False]
  obtain mt where mt0: "GetTags ex_IdToSlug False ex_store = Inr mt
          \<and> distinct (map fst mt)
          \<and> set (map fst mt) = ex_IdToSlug ` fst ` set (tag_pairs [ex_A, ex_B, ex_C, ex_D])
          \<and> (\<forall>s. map_of mt s = index_record ''/tags/'' ex_IdToSlug
                 (tag_pairs [ex_A, ex_B, ex_C, ex_D]) s)"
    using T[THEN conjunct1] by (rule exE)
  obtain mc where mc0: "GetCategories ex_IdToSlug False ex_store = Inr mc
          \<and> distinct (map fst mc)
          \<and> set (map fst mc) = ex_IdToSlug ` fst ` set (category_pairs [ex_A, ex_B, ex_C, ex_D])
          \<and> (\<forall>s. map_of mc s = index_record ''/categories/'' ex_IdToSlug
                 (category_pairs [ex_A, ex_B, ex_C, ex_D]) s)"
    using T[THEN conjunct2] by (rule exE)
  note mt = mt0[THEN conjunct1] and t = mt0[THEN conjunct2, THEN conjunct2, THEN conjunct2]
  note mc = mc0[THEN conjunct1] and c = mc0[THEN conjunct2, THEN conjunct2, THEN conjunct2]
  have t1: "map_of mt ''t1'' = Some \<lparr>Tag_name = ''t1'', Tag_slug = ''/tags/t1'',
            Tag_notes = [note_item ex_IdToSlug ex_A, note_item ex_IdToSlug ex_B]\<rparr>"
    and t2: "map_of mt ''T1'' = None"
    unfolding t[rule_format]
    by (simp_all add: index_record_def tag_pairs_def ex_defs ex_IdToSlug_def)
  have c1: "map_of mc ''tech'' = Some \<lparr>Tag_name = ''Tech'', Tag_slug = ''/categories/tech'',
            Tag_notes = [note_item ex_IdToSlug ex_A, note_item ex_IdToSlug ex_B]\<rparr>"
    and c2: "map_of mc ''Tech'' = None"
    unfolding c[rule_format]
    by (simp_all add: index_record_def category_pairs_def ex_defs ex_IdToSlug_def)
  have a: "\<exists>m. GetTags ex_IdToSlug False ex_store = Inr m
      \<and> map_of m ''t1'' = Some \<lparr>Tag_name = ''t1'', Tag_slug = ''/tags/t1'',
            Tag_notes = [note_item ex_IdToSlug ex_A, note_item ex_IdToSlug ex_B]\<rparr>
      \<and> map_of m ''T1'' = None"
    by (rule exI[of _ mt]) (rule conjI mt t1 t2)+
  have b: "\<exists>m. GetCategories ex_IdToSlug False ex_store = Inr m
      \<and> map_of m ''tech'' = Some \<lparr>Tag_name = ''Tech'', Tag_slug = ''/categories/tech'',
            Tag_notes = [note_item ex_IdToSlug ex_A, note_item ex_IdToSlug ex_B]\<rparr>
      \<and> map_of m ''Tech'' = None"
    by (rule exI[of _ mc]) (rule conjI mc c1 c2)+
  show ?thesis using a b by (rule conjI)
qed


section \<open>Category index: what a document contributes\<close>

text \<open>
  Claim C9.  In the map of \<^verbatim>\<open>GetCategories\<close> the record under a slug \<open>s\<close> holds exactly one
  entry for each document whose category is present, non-empty and has the slug \<open>s\<close>,
  in document order (and there is no record when there is no such document).  So a
  document without category, or with the empty one, has no entry anywhere, a document
  with category X has one entry, under \<^verbatim>\<open>IdToSlug(X)\<close>, and the number of entries of the
  whole index is the number of documents with a non-empty category.
\<close>

theorem category_contribution:
  fixes f env_PROD store
  defines "docs \<equiv> getCollection store (draftFilter env_PROD)"
  shows "\<exists>m. GetCategories f env_PROD store = Inr m
    \<and> distinct (map fst m)
    \<and> (\<forall>s. (case map_of m s of None \<Rightarrow> [] | Some t \<Rightarrow> Tag_notes t)
            = map (note_item f)
                (filter (\<lambda>d. case category (data d) of
                                 None \<Rightarrow> False
                               | Some c \<Rightarrow> c \<noteq> [] \<and> f c = s) docs))
    \<and> sum_list (map (\<lambda>(s, t). length (Tag_notes t)) m)
        = length (filter (\<lambda>d. case category (data d) of
                                 None \<Rightarrow> False
                               | Some c \<Rightarrow> c \<noteq> []) docs)"
proof -
  define m where "m = foldl (index_add ''/categories/'' f) [] (category_pairs docs)"
  have r: "GetCategories f env_PROD store = Inr m"
    by (simp add: GetCategories_Inr m_def docs_def)
  have b: "distinct (map fst m)"
    "\<forall>s. map_of m s = index_record ''/categories/'' f (category_pairs docs) s"
    unfolding m_def using index_built[of "''/categories/''" f "category_pairs docs"] by blast+
  have n: "(case map_of m s of None \<Rightarrow> [] | Some t \<Rightarrow> Tag_notes t)
            = map (note_item f)
                (filter (\<lambda>d. case category (data d) of
                                 None \<Rightarrow> False
                               | Some c \<Rightarrow> c \<noteq> [] \<and> f c = s) docs)" for s
  proof (cases "index_record ''/categories/'' f (category_pairs docs) s")
    case None
    then have "filter (\<lambda>p. f (fst p) = s) (category_pairs docs) = []"
      by (simp add: index_record_None)
    then have "filter (\<lambda>d. case category (data d) of
                                 None \<Rightarrow> False
                               | Some c \<Rightarrow> c \<noteq> [] \<and> f c = s) docs = []"
      using category_pairs_filter[of f s docs] by simp
    then show ?thesis using None b(2) by simp
  next
    case (Some t)
    from index_record_name[OF Some]
    have "Tag_notes t
        = map (note_item f) (map snd (filter (\<lambda>p. f (fst p) = s) (category_pairs docs)))"
      by (simp add: comp_def)
    then show ?thesis using Some b(2) by (simp add: category_pairs_filter)
  qed
  have c: "sum_list (map (\<lambda>(s, t). length (Tag_notes t)) m)
        = length (filter (\<lambda>d. case category (data d) of
                                 None \<Rightarrow> False
                               | Some c \<Rightarrow> c \<noteq> []) docs)"
    by (simp add: m_def index_foldl_total length_category_pairs)
  have n': "\<forall>s. (case map_of m s of None \<Rightarrow> [] | Some t \<Rightarrow> Tag_notes t)
            = map (note_item f)
                (filter (\<lambda>d. case category (data d) of
                                 None \<Rightarrow> False
                               | Some c \<Rightarrow> c \<noteq> [] \<and> f c = s) docs)"
    using n by (rule allI)
  show ?thesis by (rule exI[of _ m]) (rule conjI r b(1) n' c)+
qed

section \<open>Paths of the records\<close>

lemma index_paths:
  assumes "distinct (map fst m)" and "\<forall>s. map_of m s = index_record path f ps s"
    and "(s, t) \<in> set m"
  shows "Tag_slug t = path @ f (Tag_name t)"
proof -
  have "map_of m s = Some t" using assms(1,3) by simp
  then have "index_record path f ps s = Some t" using assms(2) by simp
  from index_record_name[OF this] show ?thesis by simp
qed

text \<open>
  Claim C10.  Every Category record returned by \<^verbatim>\<open>GetCategories\<close> has as \<^verbatim>\<open>slug\<close> the string
  \<^verbatim>\<open>/categories/\<close> followed by \<^verbatim>\<open>IdToSlug\<close> of its name, every Tag record returned by
  \<^verbatim>\<open>GetTags\<close> has \<^verbatim>\<open>/tags/\<close> followed by \<^verbatim>\<open>IdToSlug\<close> of its name, and no Category record has
  the path of a Tag record.
\<close>

theorem record_paths:
  "\<exists>mc mt. GetCategories f env_PROD store = Inr mc
     \<and> GetTags f env_PROD store = Inr mt
     \<and> (\<forall>(s, c) \<in> set mc. Tag_slug c = ''/categories/'' @ f (Tag_name c))
     \<and> (\<forall>(s, t) \<in> set mt. Tag_slug t = ''/tags/'' @ f (Tag_name t))
     \<and> (\<forall>(s, c) \<in> set mc. \<forall>(s', t) \<in> set mt. Tag_slug c \<noteq> Tag_slug t)"
proof -
  define docs where "docs = getCollection store (draftFilter env_PROD)"
  define mc where "mc = foldl (index_add ''/categories/'' f) [] (category_pairs docs)"
  define mt where "mt = foldl (index_add ''/tags/'' f) [] (tag_pairs docs)"
  have rc: "GetCategories f env_PROD store = Inr mc"
    by (simp add: GetCategories_Inr mc_def docs_def)
  have rt: "GetTags f env_PROD store = Inr mt"
    by (simp add: GetTags_Inr mt_def docs_def)
  have pc: "Tag_slug c = ''/categories/'' @ f (Tag_name c)" if "(s, c) \<in> set mc" for s c
    using index_built[of "''/categories/''" f "category_pairs docs"] that
    unfolding mc_def[symmetric] by (metis index_paths)
  have pt: "Tag_slug t = ''/tags/'' @ f (Tag_name t)" if "(s, t) \<in> set mt" for s t
    using index_built[of "''/tags/''" f "tag_pairs docs"] that
    unfolding mt_def[symmetric] by (metis index_paths)
  have ne: "Tag_slug c \<noteq> Tag_slug t" if "(s, c) \<in> set mc" "(s', t) \<in> set mt" for s c s' t
    using pc[OF that(1)] pt[OF that(2)] by simp
  have 1: "\<forall>(s, c) \<in> set mc. Tag_slug c = ''/categories/'' @ f (Tag_name c)"
    using pc by auto
  have 2: "\<forall>(s, t) \<in> set mt. Tag_slug t = ''/tags/'' @ f (Tag_name t)"
    using pt by auto
  have 3: "\<forall>(s, c) \<in> set mc. \<forall>(s', t) \<in> set mt. Tag_slug c \<noteq> Tag_slug t"
    using ne by auto
  show ?thesis by (rule exI[of _ mc], rule exI[of _ mt]) (rule conjI rc rt 1 2 3)+
qed

text \<open>On the example store outside production: the only category record and the first tag record.\<close>

theorem record_paths_witness:
  "\<exists>mc mt. GetCategories ex_IdToSlug False ex_store = Inr mc
     \<and> GetTags ex_IdToSlug False ex_store = Inr mt
     \<and> map (\<lambda>(s, c). (Tag_name c, Tag_slug c)) mc = [(''Tech'', ''/categories/tech'')]
     \<and> map (\<lambda>(s, t). (Tag_name t, Tag_slug t)) mt
         = [(''t1'', ''/tags/t1''), (''t2'', ''/tags/t2'')]
     \<and> Tag_slug (snd (mc ! 0)) = ''/categories/'' @ ex_IdToSlug (Tag_name (snd (mc ! 0)))
     \<and> Tag_slug (snd (mt ! 0)) = ''/tags/'' @ ex_IdToSlug (Tag_name (snd (mt ! 0)))
     \<and> Tag_slug (snd (mc ! 0)) \<noteq> Tag_slug (snd (mt ! 0))"
proof -
  obtain mc mt where rc: "GetCategories ex_IdToSlug False ex_store = Inr mc"
    and rt: "GetTags ex_IdToSlug False ex_store = Inr mt"
    and 1: "\<forall>(s, c) \<in> set mc. Tag_slug c = ''/categories/'' @ ex_IdToSlug (Tag_name c)"
    and 2: "\<forall>(s, t) \<in> set mt. Tag_slug t = ''/tags/'' @ ex_IdToSlug (Tag_name t)"
    and 3: "\<forall>(s, c) \<in> set mc. \<forall>(s', t) \<in> set mt. Tag_slug c \<noteq> Tag_slug t"
    using record_paths[of ex_IdToSlug False ex_store] by (elim exE conjE)
  have "Inr [(''tech'', \<lparr>Tag_name = ''Tech'', Tag_slug = ''/categories/tech'',
                    Tag_notes = [note_item ex_IdToSlug ex_A, note_item ex_IdToSlug ex_B]\<rparr>)]
      = (Inr mc :: error + (string, Tag) JSMap)"
    using rc by (simp only: ex_GetCategories_False)
  then have vc: "mc = [(''tech'', \<lparr>Tag_name = ''Tech'', Tag_slug = ''/categories/tech'',
                    Tag_notes = [note_item ex_IdToSlug ex_A, note_item ex_IdToSlug ex_B]\<rparr>)]"
    by simp
  have "Inr [(''t1'', \<lparr>Tag_name = ''t1'', Tag_slug = ''/tags/t1'',
                    Tag_notes = [note_item ex_IdToSlug ex_A, note_item ex_IdToSlug ex_B]\<rparr>),
          (''t2'', \<lparr>Tag_name = ''t2'', Tag_slug = ''/tags/t2'',
                    Tag_notes = [note_item ex_IdToSlug ex_A, note_item ex_IdToSlug ex_D]\<rparr>)]
      = (Inr mt :: error + (string, Tag) JSMap)"
    using rt by (simp only: ex_GetTags_False)
  then have vt: "mt = [(''t1'', \<lparr>Tag_name = ''t1'', Tag_slug = ''/tags/t1'',
                    Tag_notes = [note_item ex_IdToSlug ex_A, note_item ex_IdToSlug ex_B]\<rparr>),
          (''t2'', \<lparr>Tag_name = ''t2'', Tag_slug = ''/tags/t2'',
                    Tag_notes = [note_item ex_IdToSlug ex_A, note_item ex_IdToSlug ex_D]\<rparr>)]"
    by simp
  have ic: "(fst (mc ! 0), snd (mc ! 0)) \<in> set mc" by (simp add: vc)
  have it: "(fst (mt ! 0), snd (mt ! 0)) \<in> set mt" by (simp add: vt)
  have a: "Tag_slug (snd (mc ! 0)) = ''/categories/'' @ ex_IdToSlug (Tag_name (snd (mc ! 0)))"
    using bspec[OF 1 ic] by (simp add: case_prod_beta)
  have b: "Tag_slug (snd (mt ! 0)) = ''/tags/'' @ ex_IdToSlug (Tag_name (snd (mt ! 0)))"
    using bspec[OF 2 it] by (simp add: case_prod_beta)
  have c0: "\<forall>(s', t) \<in> set mt. Tag_slug (snd (mc ! 0)) \<noteq> Tag_slug t"
    using bspec[OF 3 ic] by (simp add: case_prod_beta)
  have c: "Tag_slug (snd (mc ! 0)) \<noteq> Tag_slug (snd (mt ! 0))"
    using bspec[OF c0 it] by (simp add: case_prod_beta)
  have m1: "map (\<lambda>(s, c). (Tag_name c, Tag_slug c)) mc = [(''Tech'', ''/categories/tech'')]"
    by (simp add: vc)
  have m2: "map (\<lambda>(s, t). (Tag_name t, Tag_slug t)) mt
         = [(''t1'', ''/tags/t1''), (''t2'', ''/tags/t2'')]"
    by (simp add: vt)
  show ?thesis by (rule exI[of _ mc], rule exI[of _ mt]) (rule conjI rc rt m1 m2 a b c)+
qed

end
